theory Spec2Isabelle
  imports Main "HOL-Library.Word"
begin

unbundle bit_operations_syntax

section \<open>Bit-vector word arrays (class bvect)\<close>

text \<open>
  \<open>digit_t\<close> is a 32-bit unsigned machine word.  A \<open>bvect\<close> is an \<open>svector<digit_t>\<close>
  carrying three extra fields \<open>bw\<close>, \<open>nw\<close>, \<open>mask\<close>.  Word 0 is the least significant one.
\<close>

type_synonym digit_t = "32 word"

record bvect =
  b_data :: "digit_t list"
  b_bw :: nat
  b_nw :: nat
  b_mask :: digit_t

text \<open>
  The unsigned fields \<open>bw\<close> and \<open>nw\<close> are natural numbers here; the C expressions below
  wrap around only for a bit-width above \<open>2^32 - 32\<close>.  The mask is
  \<open>(1 << (bw % 32)) - 1\<close>, replaced by all ones when it is zero; the word count is
  \<open>(bw + 32 - 1) / 32\<close>.
\<close>

definition bw_mask :: "nat \<Rightarrow> digit_t" where
  "bw_mask b = (let m = push_bit (b mod 32) 1 - 1 in if m = 0 then NOT 0 else m)"

definition bw_words :: "nat \<Rightarrow> nat" where
  "bw_words b = (b + 32 - 1) div 32"

text \<open>
  Modelled from the spec: \<open>svector::reserve\<close> is not part of the two source files; it
  ``reserves storage'', growing the vector with zero words up to the requested size and
  leaving a vector that is already long enough alone.
\<close>

definition reserve :: "nat \<Rightarrow> digit_t list \<Rightarrow> digit_t list" where
  "reserve n xs = (if length xs < n then xs @ replicate (n - length xs) 0 else xs)"

definition bvect_set_bw :: "nat \<Rightarrow> bvect \<Rightarrow> bvect" where
  "bvect_set_bw b x =
     x\<lparr>b_bw := b, b_nw := bw_words b, b_mask := bw_mask b,
       b_data := reserve (bw_words b + 1) (b_data x)\<rparr>"

text \<open>Element access \<open>x[i]\<close> and element assignment \<open>x[i] = w\<close>.\<close>

definition at :: "bvect \<Rightarrow> nat \<Rightarrow> digit_t" where
  "at x i = b_data x ! i"

definition put :: "bvect \<Rightarrow> nat \<Rightarrow> digit_t \<Rightarrow> bvect" where
  "put x i w = x\<lparr>b_data := (b_data x)[i := w]\<rparr>"

definition get_pos_mask :: "nat \<Rightarrow> digit_t" where
  "get_pos_mask bit_idx = push_bit (bit_idx mod 32) 1"

definition get_bit_word :: "bvect \<Rightarrow> nat \<Rightarrow> digit_t" where
  "get_bit_word x bit_idx = at x (bit_idx div 32)"

definition get :: "bvect \<Rightarrow> nat \<Rightarrow> bool" where
  "get x bit_idx = ((get_bit_word x bit_idx AND get_pos_mask bit_idx) \<noteq> 0)"

definition set_bit_bv :: "bvect \<Rightarrow> nat \<Rightarrow> bool \<Rightarrow> bvect" where
  "set_bit_bv x bit_idx val =
     (let v = (0 - (if val then 1 else 0) :: digit_t);
          w = get_bit_word x bit_idx
      in put x (bit_idx div 32) (w XOR ((v XOR w) AND get_pos_mask bit_idx)))"

text \<open>\<open>copy_to(nw, dst)\<close>: \<open>dst[i] = (*this)[i]\<close> for \<open>i < nw\<close>.\<close>

fun copy_words :: "nat \<Rightarrow> bvect \<Rightarrow> bvect \<Rightarrow> bvect" where
  "copy_words 0 src dst = dst"
| "copy_words (Suc n) src dst = put (copy_words n src dst) n (at src n)"

text \<open>
  \<open>bvect::get_value(nw)\<close>: word \<open>i\<close> contributes \<open>word_i * 2^(32 i)\<close>.  The result is a
  non-negative integer held in a \<open>rational\<close>; it is modelled as an \<open>int\<close>.
\<close>

fun get_value :: "bvect \<Rightarrow> nat \<Rightarrow> int" where
  "get_value x 0 = 0"
| "get_value x (Suc n) = get_value x n + 2 ^ (32 * n) * uint (at x n)"

text \<open>
  Modelled from the spec: \<open>mpn_manager::compare\<close> lives outside the two source files.
  It is the ``unsigned multi-word comparison from most-significant word down'' of two
  word sequences of equal length; the result is negative, zero or positive.
\<close>

fun mpn_compare :: "digit_t list \<Rightarrow> digit_t list \<Rightarrow> nat \<Rightarrow> int" where
  "mpn_compare a b 0 = 0"
| "mpn_compare a b (Suc j) =
     (if b ! j < a ! j then 1 else if a ! j < b ! j then - 1 else mpn_compare a b j)"

text \<open>The comparison operators of \<open>bvect\<close>; all of them compare \<open>a.nw\<close> words.\<close>

definition bv_eq :: "bvect \<Rightarrow> bvect \<Rightarrow> bool" where
  "bv_eq a b = (0 = mpn_compare (b_data a) (b_data b) (b_nw a))"

definition bv_lt :: "bvect \<Rightarrow> bvect \<Rightarrow> bool" where
  "bv_lt a b = (mpn_compare (b_data a) (b_data b) (b_nw a) < 0)"

definition bv_gt :: "bvect \<Rightarrow> bvect \<Rightarrow> bool" where
  "bv_gt a b = (mpn_compare (b_data a) (b_data b) (b_nw a) > 0)"

definition bv_le :: "bvect \<Rightarrow> bvect \<Rightarrow> bool" where
  "bv_le a b = (mpn_compare (b_data a) (b_data b) (b_nw a) \<le> 0)"

definition bv_ge :: "bvect \<Rightarrow> bvect \<Rightarrow> bool" where
  "bv_ge a b = (mpn_compare (b_data a) (b_data b) (b_nw a) \<ge> 0)"

definition bv_ne :: "bvect \<Rightarrow> bvect \<Rightarrow> bool" where
  "bv_ne a b = (\<not> bv_eq a b)"

section \<open>The valuation (class sls\_valuation)\<close>

record sls_valuation =
  m_bits :: bvect
  m_lo :: bvect
  m_hi :: bvect
  m_signed_prefix :: nat
  mask_v :: digit_t
  bw :: nat
  nw :: nat
  fixed :: bvect
  eval :: bvect

text \<open>A default-constructed \<open>bvect\<close>: no words, all three fields zero.\<close>

definition bvect_empty :: bvect where
  "bvect_empty = \<lparr>b_data = [], b_bw = 0, b_nw = 0, b_mask = 0\<rparr>"

text \<open>
  The constructor \<open>sls_valuation(bw)\<close>: sizes the five vectors, zeroes their first \<open>nw\<close>
  words and then marks the unused high bits of the last word as fixed.  The definition is
  for \<open>bw > 0\<close>: with \<open>bw = 0\<close> the source has \<open>nw = 0\<close> and its last statement indexes
  \<open>fixed[UINT_MAX]\<close>, outside the vector.
\<close>

fun zero_words :: "nat \<Rightarrow> bvect \<Rightarrow> bvect" where
  "zero_words 0 x = x"
| "zero_words (Suc n) x = put (zero_words n x) n 0"

definition new_valuation :: "nat \<Rightarrow> sls_valuation" where
  "new_valuation b =
     (let z = zero_words (bw_words b) (bvect_set_bw b bvect_empty)
      in \<lparr>m_bits = z, m_lo = z, m_hi = z, m_signed_prefix = 0,
          mask_v = bw_mask b, bw = b, nw = bw_words b,
          fixed = put z (bw_words b - 1) (NOT (bw_mask b)), eval = z\<rparr>)"

definition has_overflow :: "sls_valuation \<Rightarrow> bvect \<Rightarrow> bool" where
  "has_overflow v bits = (0 \<noteq> (at bits (nw v - 1) AND NOT (mask_v v)))"

definition clear_overflow_bits :: "sls_valuation \<Rightarrow> bvect \<Rightarrow> bvect" where
  "clear_overflow_bits v bits = put bits (nw v - 1) (at bits (nw v - 1) AND mask_v v)"

definition in_range :: "sls_valuation \<Rightarrow> bvect \<Rightarrow> bool" where
  "in_range v bits =
     (let c = mpn_compare (b_data (m_lo v)) (b_data (m_hi v)) (nw v) in
      if c = 0 then True
      else if c < 0 then
        mpn_compare (b_data (m_lo v)) (b_data bits) (nw v) \<le> 0 \<and>
        mpn_compare (b_data bits) (b_data (m_hi v)) (nw v) < 0
      else
        mpn_compare (b_data (m_lo v)) (b_data bits) (nw v) \<le> 0 \<or>
        mpn_compare (b_data bits) (b_data (m_hi v)) (nw v) < 0)"

text \<open>
  The loop \<open>for i < nw: if (0 != (fixed[i] & (a[i] ^ b[i]))) return false\<close> shared by
  \<open>commit_eval\<close> and \<open>can_set\<close> (which writes the operands of \<open>^\<close> in the other order).
\<close>

fun fixed_agree :: "bvect \<Rightarrow> bvect \<Rightarrow> bvect \<Rightarrow> nat \<Rightarrow> nat \<Rightarrow> bool" where
  "fixed_agree fx a b i 0 = True"
| "fixed_agree fx a b i (Suc k) =
     (if 0 \<noteq> (at fx i AND (at a i XOR at b i)) then False
      else fixed_agree fx a b (Suc i) k)"

text \<open>\<open>set(dst, src)\<close>: \<open>dst[i] = src[i]\<close> for \<open>i < nw\<close>.\<close>

definition set_bv :: "sls_valuation \<Rightarrow> bvect \<Rightarrow> bvect \<Rightarrow> bvect" where
  "set_bv v dst src = copy_words (nw v) src dst"

definition commit_eval :: "sls_valuation \<Rightarrow> bool \<times> sls_valuation" where
  "commit_eval v =
     (if \<not> fixed_agree (fixed v) (m_bits v) (eval v) 0 (nw v) then (False, v)
      else if \<not> in_range v (eval v) then (False, v)
      else (True, v\<lparr>m_bits := copy_words (nw v) (eval v) (m_bits v)\<rparr>))"

definition can_set :: "sls_valuation \<Rightarrow> bvect \<Rightarrow> bool" where
  "can_set v new_bits =
     (if \<not> fixed_agree (fixed v) new_bits (m_bits v) 0 (nw v) then False
      else in_range v new_bits)"

definition has_range :: "sls_valuation \<Rightarrow> bool" where
  "has_range v = bv_ne (m_lo v) (m_hi v)"

definition well_formed :: "sls_valuation \<Rightarrow> bool" where
  "well_formed v = (\<not> has_overflow v (m_bits v) \<and> (\<not> has_range v \<or> in_range v (m_bits v)))"


section \<open>Bounded search: get\_at\_most and get\_at\_least\<close>

text \<open>
  In this section \<open>src\<close> and \<open>dst\<close> are the contents of two different vectors of the caller,
  and a function returns the new content of \<open>dst\<close>.  The calls the samplers make, where the
  vectors can be members of the valuation, are modelled further down with references.
\<close>

text \<open>
  Modelled from the spec: \<open>log2\<close> on a machine word is a utility outside the two source
  files; it gives ``the most-significant such position'', the index of the highest set bit.
\<close>

fun log2_from :: "digit_t \<Rightarrow> nat \<Rightarrow> nat" where
  "log2_from w 0 = 0"
| "log2_from w (Suc k) = (if bit w (Suc k) then Suc k else log2_from w k)"

definition log2 :: "digit_t \<Rightarrow> nat" where
  "log2 w = log2_from w 31"

text \<open>\<open>sub1(out)\<close>: decrement with borrow over the bits \<open>i, i+1, ...\<close>, \<open>k\<close> of them left.\<close>

fun sub1_loop :: "bvect \<Rightarrow> nat \<Rightarrow> nat \<Rightarrow> bvect" where
  "sub1_loop out i 0 = out"
| "sub1_loop out i (Suc k) =
     (if get out i then set_bit_bv out i False
      else sub1_loop (set_bit_bv out i True) (Suc i) k)"

definition sub1 :: "sls_valuation \<Rightarrow> bvect \<Rightarrow> bvect" where
  "sub1 v out = sub1_loop out 0 (bw v)"

definition round_up :: "sls_valuation \<Rightarrow> bvect \<Rightarrow> bool \<times> bvect" where
  "round_up v dst =
     (if bv_lt (m_lo v) (m_hi v) then
        (if bv_le (m_hi v) dst then (False, dst)
         else if bv_gt (m_lo v) dst then (True, set_bv v dst (m_lo v))
         else (True, dst))
      else if bv_le (m_hi v) dst \<and> bv_gt (m_lo v) dst then (True, set_bv v dst (m_lo v))
      else (True, dst))"

definition round_down :: "sls_valuation \<Rightarrow> bvect \<Rightarrow> bool \<times> bvect" where
  "round_down v dst =
     (if bv_lt (m_lo v) (m_hi v) then
        (if bv_gt (m_lo v) dst then (False, dst)
         else if bv_le (m_hi v) dst then (True, sub1 v (set_bv v dst (m_hi v)))
         else (True, dst))
      else if bv_le (m_hi v) dst \<and> bv_gt (m_lo v) dst
           then (True, sub1 v (set_bv v dst (m_hi v)))
      else (True, dst))"

text \<open>First loop of \<open>get_at_most\<close>: \<open>dst[i] = src[i] & (~fixed[i] | m_bits[i])\<close> for \<open>i < n\<close>.\<close>

fun at_most_init :: "sls_valuation \<Rightarrow> bvect \<Rightarrow> nat \<Rightarrow> bvect \<Rightarrow> bvect" where
  "at_most_init v src 0 dst = dst"
| "at_most_init v src (Suc n) dst =
     put (at_most_init v src n dst) n
       (at src n AND (NOT (at (fixed v) n) OR at (m_bits v) n))"

text \<open>Inner loop of \<open>get_at_most\<close>: \<open>for (j = i; j-- > 0; ) dst[j] = ~fixed[j] | m_bits[j]\<close>.\<close>

fun at_most_fill :: "sls_valuation \<Rightarrow> nat \<Rightarrow> bvect \<Rightarrow> bvect" where
  "at_most_fill v 0 dst = dst"
| "at_most_fill v (Suc j) dst =
     at_most_fill v j (put dst j (NOT (at (fixed v) j) OR at (m_bits v) j))"

text \<open>Second loop of \<open>get_at_most\<close>: \<open>for (i = nw; i-- > 0; )\<close>, left at the first hit.\<close>

fun at_most_scan :: "sls_valuation \<Rightarrow> bvect \<Rightarrow> nat \<Rightarrow> bvect \<Rightarrow> bvect" where
  "at_most_scan v src 0 dst = dst"
| "at_most_scan v src (Suc i) dst =
     (if 0 \<noteq> (NOT (at dst i) AND at src i) then
        (let idx = log2 (NOT (at dst i) AND at src i);
             msk = (push_bit idx 1 - 1 :: digit_t);
             dst1 = put dst i ((NOT (at (fixed v) i) AND msk) OR at dst i)
         in at_most_fill v i dst1)
      else at_most_scan v src i dst)"

definition get_at_most :: "sls_valuation \<Rightarrow> bvect \<Rightarrow> bvect \<Rightarrow> bool \<times> bvect" where
  "get_at_most v src dst =
     round_down v (at_most_scan v src (nw v) (at_most_init v src (nw v) dst))"

text \<open>First loop of \<open>get_at_least\<close>: \<open>dst[i] = (~fixed[i] & src[i]) | (fixed[i] & m_bits[i])\<close>.\<close>

fun at_least_init :: "sls_valuation \<Rightarrow> bvect \<Rightarrow> nat \<Rightarrow> bvect \<Rightarrow> bvect" where
  "at_least_init v src 0 dst = dst"
| "at_least_init v src (Suc n) dst =
     put (at_least_init v src n dst) n
       ((NOT (at (fixed v) n) AND at src n) OR (at (fixed v) n AND at (m_bits v) n))"

text \<open>Inner loop of \<open>get_at_least\<close>: \<open>for (j = i; j-- > 0; ) dst[j] = dst[j] & fixed[j]\<close>.\<close>

fun at_least_clear :: "sls_valuation \<Rightarrow> nat \<Rightarrow> bvect \<Rightarrow> bvect" where
  "at_least_clear v 0 dst = dst"
| "at_least_clear v (Suc j) dst =
     at_least_clear v j (put dst j (at dst j AND at (fixed v) j))"

fun at_least_scan :: "sls_valuation \<Rightarrow> bvect \<Rightarrow> nat \<Rightarrow> bvect \<Rightarrow> bvect" where
  "at_least_scan v src 0 dst = dst"
| "at_least_scan v src (Suc i) dst =
     (if 0 \<noteq> (at dst i AND NOT (at src i)) then
        (let idx = log2 (at dst i AND NOT (at src i));
             msk = (push_bit idx 1 :: digit_t);
             dst1 = put dst i (at dst i AND (at (fixed v) i OR msk))
         in at_least_clear v i dst1)
      else at_least_scan v src i dst)"

definition get_at_least :: "sls_valuation \<Rightarrow> bvect \<Rightarrow> bvect \<Rightarrow> bool \<times> bvect" where
  "get_at_least v src dst =
     round_up v (at_least_scan v src (nw v) (at_least_init v src (nw v) dst))"

section \<open>Range maintenance: set\_value, add\_range, tighten\_range\<close>

text \<open>
  \<open>set_value(bits, n)\<close>: \<open>bits.set(i, n.get_bit(i))\<close> for \<open>i < bw\<close>, then the overflow
  bits are cleared.  The \<open>rational\<close> argument is a non-negative integer here.
\<close>

fun set_value_loop :: "bvect \<Rightarrow> int \<Rightarrow> nat \<Rightarrow> bvect" where
  "set_value_loop bits n 0 = bits"
| "set_value_loop bits n (Suc i) = set_bit_bv (set_value_loop bits n i) i (bit n i)"

definition set_value :: "sls_valuation \<Rightarrow> bvect \<Rightarrow> int \<Rightarrow> bvect" where
  "set_value v bits n = clear_overflow_bits v (set_value_loop bits n (bw v))"

definition lo :: "sls_valuation \<Rightarrow> int" where
  "lo v = get_value (m_lo v) (nw v)"

definition hi :: "sls_valuation \<Rightarrow> int" where
  "hi v = get_value (m_hi v) (nw v)"

text \<open>
  First loop of the repair branch of \<open>tighten_range\<close>: the last index \<open>i < bw\<close> at which a
  fixed bit of \<open>m_bits\<close> differs from \<open>m_lo\<close>, starting from \<open>max_diff = bw\<close>.
\<close>

fun find_max_diff :: "sls_valuation \<Rightarrow> nat \<Rightarrow> nat" where
  "find_max_diff v 0 = bw v"
| "find_max_diff v (Suc i) =
     (if get (fixed v) i \<and> (get (m_bits v) i \<noteq> get (m_lo v) i) then i
      else find_max_diff v i)"

text \<open>\<open>for (i = 0; i <= max_diff; ++i) tmp.set(i, fixed.get(i) && m_bits.get(i))\<close>; the
  argument counts the iterations, \<open>max_diff + 1\<close> of them.\<close>

fun tighten_low :: "sls_valuation \<Rightarrow> nat \<Rightarrow> bvect \<Rightarrow> bvect" where
  "tighten_low v 0 tmp = tmp"
| "tighten_low v (Suc i) tmp =
     set_bit_bv (tighten_low v i tmp) i (get (fixed v) i \<and> get (m_bits v) i)"

text \<open>The \<open>found0\<close> loop over \<open>i = max_diff + 1, ..., bw - 1\<close>, \<open>k\<close> iterations left.\<close>

fun tighten_high :: "sls_valuation \<Rightarrow> bool \<Rightarrow> nat \<Rightarrow> nat \<Rightarrow> bvect \<Rightarrow> bvect" where
  "tighten_high v found0 i 0 tmp = tmp"
| "tighten_high v found0 i (Suc k) tmp =
     (if found0 \<or> get (m_lo v) i \<or> get (fixed v) i
      then tighten_high v found0 (Suc i) k
             (set_bit_bv tmp i (get (m_lo v) i \<and> get (fixed v) i))
      else tighten_high v True (Suc i) k (set_bit_bv tmp i True))"

text \<open>\<open>for (j = n; j-- > 0; ) m_lo.set(j, fixed.get(j) && m_bits.get(j))\<close>.\<close>

fun lo_from_fixed :: "sls_valuation \<Rightarrow> nat \<Rightarrow> bvect \<Rightarrow> bvect" where
  "lo_from_fixed v 0 l = l"
| "lo_from_fixed v (Suc j) l =
     lo_from_fixed v j (set_bit_bv l j (get (fixed v) j \<and> get (m_bits v) j))"

text \<open>The last loop of \<open>tighten_range\<close>: \<open>for (i = bw; i-- > 0; )\<close>, left at the first fixed
  bit on which \<open>m_bits\<close> and \<open>m_lo\<close> differ.\<close>

fun tighten_lo :: "sls_valuation \<Rightarrow> nat \<Rightarrow> sls_valuation" where
  "tighten_lo v 0 = v"
| "tighten_lo v (Suc i) =
     (if \<not> get (fixed v) i then tighten_lo v i
      else if get (m_bits v) i = get (m_lo v) i then tighten_lo v i
      else if get (m_bits v) i
        then v\<lparr>m_lo := lo_from_fixed v i (set_bit_bv (m_lo v) i True)\<rparr>
        else v\<lparr>m_lo := lo_from_fixed v (bw v) (m_lo v)\<rparr>)"

definition tighten_bits :: "sls_valuation \<Rightarrow> sls_valuation" where
  "tighten_bits v =
     (if \<not> in_range v (m_bits v) then
        (if fixed_agree (fixed v) (m_bits v) (m_lo v) 0 (nw v)
         then v\<lparr>m_bits := set_bv v (m_bits v) (m_lo v)\<rparr>
         else
           (let tmp0 = bvect_set_bw (bw v)
                         (bvect_empty\<lparr>b_data := replicate (b_nw (m_bits v)) 0\<rparr>);
                tmp1 = set_bv v tmp0 (m_lo v);
                max_diff = find_max_diff v (bw v);
                tmp2 = tighten_low v (Suc max_diff) tmp1;
                tmp3 = tighten_high v False (Suc max_diff) (bw v - Suc max_diff) tmp2
            in v\<lparr>m_bits := set_bv v (m_bits v) tmp3\<rparr>))
      else v)"

definition tighten_range :: "sls_valuation \<Rightarrow> sls_valuation" where
  "tighten_range v =
     (if bv_eq (m_lo v) (m_hi v) then v
      else tighten_lo (tighten_bits v) (bw v))"

text \<open>
  The part of \<open>add_range\<close> between the two reductions modulo \<open>2^bw\<close> and the final call of
  \<open>tighten_range\<close>; \<open>l\<close> and \<open>h\<close> are already reduced and different.
\<close>

definition add_range_intersect :: "sls_valuation \<Rightarrow> int \<Rightarrow> int \<Rightarrow> sls_valuation" where
  "add_range_intersect v l h =
     (if bv_eq (m_lo v) (m_hi v) then
        (let v1 = v\<lparr>m_lo := set_value v (m_lo v) l\<rparr>
         in v1\<lparr>m_hi := set_value v1 (m_hi v1) h\<rparr>)
      else
        (let old_lo = lo v; old_hi = hi v in
         if old_lo < old_hi then
           (let (v1, old_lo1) =
                  (if old_lo < l \<and> l < old_hi
                   then (v\<lparr>m_lo := set_value v (m_lo v) l\<rparr>, l) else (v, old_lo))
            in if old_hi < h \<and> h < old_hi
               then v1\<lparr>m_hi := set_value v1 (m_hi v1) h\<rparr> else v1)
         else
           (let (v1, old_lo1) =
                  (if old_lo < l \<or> l < old_hi
                   then (v\<lparr>m_lo := set_value v (m_lo v) l\<rparr>, l) else (v, old_lo))
            in if old_lo1 < h \<and> h < old_hi
               then v1\<lparr>m_hi := set_value v1 (m_hi v1) h\<rparr>
               else if old_hi < old_lo1 \<and> (h < old_hi \<or> old_lo1 < h)
               then v1\<lparr>m_hi := set_value v1 (m_hi v1) h\<rparr>
               else v1)))"

definition add_range :: "sls_valuation \<Rightarrow> int \<Rightarrow> int \<Rightarrow> sls_valuation" where
  "add_range v l0 h0 =
     (let l = l0 mod 2 ^ bw v; h = h0 mod 2 ^ bw v in
      if h = l then v
      else tighten_range (add_range_intersect v l h))"

section \<open>Conversion and delegated arithmetic\<close>

text \<open>\<open>unsigned\<close> is a 32-bit machine integer as well.\<close>

type_synonym unsigned = "32 word"

text \<open>The inner loop of \<open>to_nat\<close>: \<open>for (j = i; j < bw; ++j) if (d.get(j)) return max_n\<close>;
  true when some bit is found.\<close>

fun any_bit_from :: "bvect \<Rightarrow> nat \<Rightarrow> nat \<Rightarrow> bool" where
  "any_bit_from d j 0 = False"
| "any_bit_from d j (Suc k) = (if get d j then True else any_bit_from d (Suc j) k)"

text \<open>The outer loop of \<open>to_nat\<close> at index \<open>i\<close> with \<open>k = bw - i\<close> iterations left; \<open>p <<= 1\<close>
  and \<open>value += p\<close> are 32-bit operations.\<close>

fun to_nat_loop :: "bvect \<Rightarrow> unsigned \<Rightarrow> nat \<Rightarrow> nat \<Rightarrow> unsigned \<Rightarrow> unsigned \<Rightarrow> unsigned" where
  "to_nat_loop d max_n i 0 p val = val"
| "to_nat_loop d max_n i (Suc k) p val =
     (if max_n \<le> p then (if any_bit_from d i (Suc k) then max_n else val)
      else to_nat_loop d max_n (Suc i) k (push_bit 1 p) (if get d i then val + p else val))"

definition to_nat :: "sls_valuation \<Rightarrow> unsigned \<Rightarrow> unsigned" where
  "to_nat v max_n = to_nat_loop (m_bits v) max_n 0 (bw v) 1 0"

text \<open>
  Modelled from the spec: the arithmetic backend \<open>mpn_manager\<close> is outside the two source
  files.  It is ``a multi-word integer ALU'' over ``equal-length sequences of unsigned
  words, producing a result sequence plus a carry'': \<open>add\<close> on two \<open>n\<close>-word operands
  writes the \<open>n + 1\<close> words of their sum (the last word is the carry), \<open>mul\<close> writes the
  \<open>2 n\<close> words of their product.  \<open>store_digits out s n\<close> writes the low \<open>n\<close> words of the
  number \<open>s\<close> into \<open>out\<close>.
\<close>

fun store_digits :: "bvect \<Rightarrow> int \<Rightarrow> nat \<Rightarrow> bvect" where
  "store_digits out s 0 = out"
| "store_digits out s (Suc n) =
     put (store_digits out s n) n (word_of_int (drop_bit (32 * n) s))"

definition mpn_add :: "bvect \<Rightarrow> bvect \<Rightarrow> nat \<Rightarrow> bvect \<Rightarrow> bvect" where
  "mpn_add a b n out = store_digits out (get_value a n + get_value b n) (n + 1)"

definition mpn_mul :: "bvect \<Rightarrow> bvect \<Rightarrow> nat \<Rightarrow> bvect \<Rightarrow> bvect" where
  "mpn_mul a b n out = store_digits out (get_value a n * get_value b n) (2 * n)"

definition set_add :: "sls_valuation \<Rightarrow> bvect \<Rightarrow> bvect \<Rightarrow> bvect \<Rightarrow> bool \<times> bvect" where
  "set_add v out a b =
     (let out1 = mpn_add a b (nw v) out;
          ovfl = (at out1 (nw v) \<noteq> 0 \<or> has_overflow v out1)
      in (ovfl, clear_overflow_bits v out1))"

text \<open>\<open>for (i = nw; i < 2 * nw; ++i) ovfl |= out[i] != 0\<close>, \<open>k\<close> iterations left.\<close>

fun high_words_nonzero :: "bvect \<Rightarrow> nat \<Rightarrow> nat \<Rightarrow> bool \<Rightarrow> bool" where
  "high_words_nonzero out i 0 ovfl = ovfl"
| "high_words_nonzero out i (Suc k) ovfl =
     high_words_nonzero out (Suc i) k (ovfl \<or> at out i \<noteq> 0)"

definition set_mul :: "sls_valuation \<Rightarrow> bvect \<Rightarrow> bvect \<Rightarrow> bvect \<Rightarrow> bool \<Rightarrow> bool \<times> bvect" where
  "set_mul v out a b check_overflow =
     (let out1 = mpn_mul a b (nw v) out;
          ovfl = (if check_overflow
                  then high_words_nonzero out1 (nw v) (nw v) (has_overflow v out1)
                  else False)
      in (ovfl, clear_overflow_bits v out1))"

section \<open>Validate-then-apply operations\<close>

text \<open>\<open>set(src)\<close>: \<open>for (i = nw; i-- > 0; ) eval[i] = src[i]\<close>, then the overflow bits of
  \<open>eval\<close> are cleared.\<close>

fun copy_words_down :: "nat \<Rightarrow> bvect \<Rightarrow> bvect \<Rightarrow> bvect" where
  "copy_words_down 0 src dst = dst"
| "copy_words_down (Suc n) src dst = copy_words_down n src (put dst n (at src n))"

definition set_eval :: "sls_valuation \<Rightarrow> bvect \<Rightarrow> sls_valuation" where
  "set_eval v src = v\<lparr>eval := clear_overflow_bits v (copy_words_down (nw v) src (eval v))\<rparr>"

definition try_set :: "sls_valuation \<Rightarrow> bvect \<Rightarrow> bool \<times> sls_valuation" where
  "try_set v src = (if \<not> can_set v src then (False, v) else (True, set_eval v src))"

definition get_bit :: "sls_valuation \<Rightarrow> nat \<Rightarrow> bool" where
  "get_bit v i = get (m_bits v) i"

definition try_set_bit :: "sls_valuation \<Rightarrow> nat \<Rightarrow> bool \<Rightarrow> bool \<times> sls_valuation" where
  "try_set_bit v i b =
     (if get (fixed v) i \<and> get_bit v i \<noteq> b then (False, v)
      else
        (let v1 = v\<lparr>eval := set_bit_bv (eval v) i b\<rparr> in
         if in_range v1 (m_bits v1) then (True, v1)
         else (False, v1\<lparr>eval := set_bit_bv (eval v1) i (\<not> b)\<rparr>)))"

text \<open>First loop of \<open>try_set_range\<close> over \<open>i = lo, ..., hi - 1\<close>: false at the first fixed
  bit that differs from \<open>b\<close>.  The loop writes nothing, so on failure no vector has been
  touched; on success the function returns the new content of \<open>dst\<close>.\<close>

fun range_settable :: "sls_valuation \<Rightarrow> nat \<Rightarrow> nat \<Rightarrow> bool \<Rightarrow> bool" where
  "range_settable v i 0 b = True"
| "range_settable v i (Suc k) b =
     (if get (fixed v) i \<and> get_bit v i \<noteq> b then False else range_settable v (Suc i) k b)"

text \<open>\<open>set_range\<close> and the second loop of \<open>try_set_range\<close>: \<open>dst.set(i, b)\<close> for \<open>lo \<le> i < hi\<close>.\<close>

fun set_range_loop :: "bvect \<Rightarrow> nat \<Rightarrow> nat \<Rightarrow> bool \<Rightarrow> bvect" where
  "set_range_loop dst i 0 b = dst"
| "set_range_loop dst i (Suc k) b = set_range_loop (set_bit_bv dst i b) (Suc i) k b"

definition try_set_range :: "sls_valuation \<Rightarrow> bvect \<Rightarrow> nat \<Rightarrow> nat \<Rightarrow> bool \<Rightarrow> bool \<times> bvect" where
  "try_set_range v dst l h b =
     (if \<not> range_settable v l (h - l) b then (False, dst)
      else (True, set_range_loop dst l (h - l) b))"

text \<open>\<open>is_zero(a)\<close> and \<open>is_ones(a)\<close>: the words below the last one, then the last one
  under the mask.\<close>

fun words_all :: "(digit_t \<Rightarrow> bool) \<Rightarrow> bvect \<Rightarrow> nat \<Rightarrow> nat \<Rightarrow> bool" where
  "words_all P a i 0 = True"
| "words_all P a i (Suc k) = (if \<not> P (at a i) then False else words_all P a (Suc i) k)"

definition is_zero :: "sls_valuation \<Rightarrow> bvect \<Rightarrow> bool" where
  "is_zero v a =
     (if \<not> words_all (\<lambda>w. w = 0) a 0 (nw v - 1) then False
      else (at a (nw v - 1) AND mask_v v) = 0)"

definition is_ones :: "sls_valuation \<Rightarrow> bvect \<Rightarrow> bool" where
  "is_ones v a =
     (if \<not> words_all (\<lambda>w. 0 = NOT w) a 0 (nw v - 1) then False
      else 0 = (mask_v v AND NOT (at a (nw v - 1))))"

section \<open>Vectors passed by reference\<close>

text \<open>
  \<open>set_repair\<close>, the samplers and the helpers they call take their work vector as
  \<open>bvect&\<close> and write it before the result is known, and a caller may pass a member of the
  valuation itself, for instance the public field \<open>eval\<close>.  For these operations a vector
  argument is therefore a reference: the name of one of the five member vectors, or of a
  vector owned by the caller.  A memory holds the valuation together with the caller's
  vectors.  Every read and every write of the source goes through \<open>rd\<close> and \<open>wr\<close>, at the
  place where the source has it, so that a write through one name is seen through every
  other name of the same vector.  A function that only reads (\<open>in_range\<close>, \<open>can_set\<close>,
  \<open>is_zero\<close>, \<open>is_ones\<close>, the comparisons) is applied to the contents at that moment.
\<close>

datatype vref = Ref_bits | Ref_lo | Ref_hi | Ref_fixed | Ref_eval | Ref_ext nat

type_synonym memory = "sls_valuation \<times> (nat \<Rightarrow> bvect)"

fun rd :: "vref \<Rightarrow> memory \<Rightarrow> bvect" where
  "rd Ref_bits (v, e) = m_bits v"
| "rd Ref_lo (v, e) = m_lo v"
| "rd Ref_hi (v, e) = m_hi v"
| "rd Ref_fixed (v, e) = fixed v"
| "rd Ref_eval (v, e) = eval v"
| "rd (Ref_ext n) (v, e) = e n"

fun wr :: "vref \<Rightarrow> bvect \<Rightarrow> memory \<Rightarrow> memory" where
  "wr Ref_bits x (v, e) = (v\<lparr>m_bits := x\<rparr>, e)"
| "wr Ref_lo x (v, e) = (v\<lparr>m_lo := x\<rparr>, e)"
| "wr Ref_hi x (v, e) = (v\<lparr>m_hi := x\<rparr>, e)"
| "wr Ref_fixed x (v, e) = (v\<lparr>fixed := x\<rparr>, e)"
| "wr Ref_eval x (v, e) = (v\<lparr>eval := x\<rparr>, e)"
| "wr (Ref_ext n) x (v, e) = (v, e(n := x))"

text \<open>\<open>a[i]\<close>, \<open>a[i] = w\<close>, \<open>a.get(i)\<close>, \<open>a.set(i, b)\<close> and \<open>a.set_bw(b)\<close> on the vector that
  \<open>a\<close> names.\<close>

definition rd_word :: "vref \<Rightarrow> nat \<Rightarrow> memory \<Rightarrow> digit_t" where
  "rd_word a i s = at (rd a s) i"

definition wr_word :: "vref \<Rightarrow> nat \<Rightarrow> digit_t \<Rightarrow> memory \<Rightarrow> memory" where
  "wr_word a i w s = wr a (put (rd a s) i w) s"

definition rd_bit :: "vref \<Rightarrow> nat \<Rightarrow> memory \<Rightarrow> bool" where
  "rd_bit a i s = get (rd a s) i"

definition wr_bit :: "vref \<Rightarrow> nat \<Rightarrow> bool \<Rightarrow> memory \<Rightarrow> memory" where
  "wr_bit a i b s = wr a (set_bit_bv (rd a s) i b) s"

definition set_bw_ref :: "vref \<Rightarrow> nat \<Rightarrow> memory \<Rightarrow> memory" where
  "set_bw_ref a b s = wr a (bvect_set_bw b (rd a s)) s"

text \<open>\<open>set(dst, src)\<close>: \<open>dst[i] = src[i]\<close> for \<open>i < nw\<close>, here for \<open>i < n\<close>.\<close>

fun set_ref :: "vref \<Rightarrow> vref \<Rightarrow> nat \<Rightarrow> memory \<Rightarrow> memory" where
  "set_ref dst src 0 s = s"
| "set_ref dst src (Suc n) s =
     (let s1 = set_ref dst src n s in wr_word dst n (rd_word src n s1) s1)"

section \<open>Sign-prefix repair\<close>

text \<open>
  The two loops of \<open>repair_sign_bits\<close> have the form
  \<open>for (unsigned i = bw; i-- >= bw - m_signed_prefix; )\<close>: the body runs for
  \<open>i = bw - 1\<close> down to \<open>bw - m_signed_prefix - 1\<close>.  The functions below take the lower
  end \<open>low\<close> of that index range and the number of indices still to visit from the top.
  The inner loop: \<open>if (!fixed.get(i)) dst.set(i, !sign)\<close>.
\<close>

fun sign_inner :: "vref \<Rightarrow> bool \<Rightarrow> nat \<Rightarrow> nat \<Rightarrow> memory \<Rightarrow> memory" where
  "sign_inner dst sign low 0 s = s"
| "sign_inner dst sign low (Suc i) s =
     (if i < low then s
      else sign_inner dst sign low i
             (if \<not> rd_bit Ref_fixed i s then wr_bit dst i (\<not> sign) s else s))"

fun sign_outer :: "vref \<Rightarrow> bool \<Rightarrow> nat \<Rightarrow> nat \<Rightarrow> memory \<Rightarrow> memory" where
  "sign_outer dst sign low 0 s = s"
| "sign_outer dst sign low (Suc i) s =
     (if i < low then s
      else if rd_bit dst i s \<noteq> sign then
        (if rd_bit Ref_fixed i s then sign_inner dst sign low (bw (fst s)) s
         else sign_outer dst sign low i (wr_bit dst i sign s))
      else sign_outer dst sign low i s)"

text \<open>
  \<open>repair_sign_bits(dst)\<close>.  The loop bound \<open>bw - m_signed_prefix\<close> is unsigned: when the
  prefix is longer than \<open>bw\<close> it wraps to a number above \<open>bw\<close> and the loops do not run;
  when the prefix equals \<open>bw\<close> the bound is 0, the test \<open>i-- >= 0\<close> never fails and the
  index wraps to \<open>UINT_MAX\<close>, an access outside the vector: the result is \<open>None\<close>.
\<close>

definition repair_sign_bits :: "vref \<Rightarrow> memory \<Rightarrow> memory option" where
  "repair_sign_bits dst s =
     (if m_signed_prefix (fst s) = 0 then Some s
      else if bw (fst s) < m_signed_prefix (fst s) then Some s
      else if bw (fst s) = m_signed_prefix (fst s) then None
      else Some (sign_outer dst (rd_bit dst (bw (fst s) - 1) s)
                   (bw (fst s) - m_signed_prefix (fst s) - 1) (bw (fst s)) s))"

section \<open>Greedy repair and the predicate-driven rounding loops\<close>

text \<open>
  \<open>for (i = n; c(dst) && i-- > 0; ) if (!fixed.get(i) && dst.get(i)) dst.set(i, false)\<close>:
  the loop of \<open>round_down(dst, is_feasible)\<close> and of \<open>set_repair\<close>, with its continuation
  test \<open>c\<close>, which reads the memory of the moment.
\<close>

fun clear_down :: "(memory \<Rightarrow> bool) \<Rightarrow> vref \<Rightarrow> nat \<Rightarrow> memory \<Rightarrow> memory" where
  "clear_down c dst 0 s = s"
| "clear_down c dst (Suc i) s =
     (if c s
      then clear_down c dst i
             (if \<not> rd_bit Ref_fixed i s \<and> rd_bit dst i s then wr_bit dst i False s else s)
      else s)"

text \<open>
  \<open>for (i = 0; c(dst) && i < bw; ++i) if (!fixed.get(i) && !dst.get(i)) dst.set(i, true)\<close>,
  at index \<open>i\<close> with \<open>k\<close> iterations left.
\<close>

fun set_up :: "(memory \<Rightarrow> bool) \<Rightarrow> vref \<Rightarrow> nat \<Rightarrow> nat \<Rightarrow> memory \<Rightarrow> memory" where
  "set_up c dst i 0 s = s"
| "set_up c dst i (Suc k) s =
     (if c s
      then set_up c dst (Suc i) k
             (if \<not> rd_bit Ref_fixed i s \<and> \<not> rd_bit dst i s then wr_bit dst i True s else s)
      else s)"

definition round_down_pred :: "vref \<Rightarrow> (memory \<Rightarrow> bool) \<Rightarrow> memory \<Rightarrow> memory option" where
  "round_down_pred dst is_feasible s =
     repair_sign_bits dst (clear_down (\<lambda>t. \<not> is_feasible t) dst (bw (fst s)) s)"

definition round_up_pred :: "vref \<Rightarrow> (memory \<Rightarrow> bool) \<Rightarrow> memory \<Rightarrow> memory option" where
  "round_up_pred dst is_feasible s =
     repair_sign_bits dst (set_up (\<lambda>t. \<not> is_feasible t) dst 0 (bw (fst s)) s)"

text \<open>First loop of \<open>set_repair\<close>: \<open>dst[i] = (~fixed[i] & dst[i]) | (fixed[i] & m_bits[i])\<close>.\<close>

fun repair_init :: "vref \<Rightarrow> nat \<Rightarrow> memory \<Rightarrow> memory" where
  "repair_init dst 0 s = s"
| "repair_init dst (Suc n) s =
     (let s1 = repair_init dst n s
      in wr_word dst n
           ((NOT (rd_word Ref_fixed n s1) AND rd_word dst n s1) OR
            (rd_word Ref_fixed n s1 AND rd_word Ref_bits n s1)) s1)"

text \<open>
  \<open>set_repair(try_down, dst)\<close> returns the flag and the memory it leaves, or \<open>None\<close> when
  \<open>repair_sign_bits\<close> leaves the vector.  On success it copies \<open>dst\<close> into \<open>eval\<close>; on the
  second path it ends with \<open>dst.set_bw(0)\<close> whatever the result.  The parameter \<open>try_down\<close>
  is not read by the body.
\<close>

definition set_repair :: "bool \<Rightarrow> vref \<Rightarrow> memory \<Rightarrow> (bool \<times> memory) option" where
  "set_repair try_down dst s =
     (case repair_sign_bits dst (repair_init dst (nw (fst s)) s) of
        None \<Rightarrow> None
      | Some s1 \<Rightarrow>
          if in_range (fst s1) (rd dst s1)
          then Some (True, set_ref Ref_eval dst (nw (fst s1)) s1)
          else
            (let s2 = set_bw_ref dst (bw (fst s1)) s1;
                 s3 = (if bv_lt (rd Ref_lo s2) (rd Ref_hi s2) then
                         set_up (\<lambda>t. bv_lt (rd dst t) (rd Ref_lo t) \<and>
                                      \<not> in_range (fst t) (rd dst t)) dst 0 (bw (fst s2))
                           (clear_down (\<lambda>t. bv_le (rd Ref_hi t) (rd dst t) \<and>
                                             \<not> in_range (fst t) (rd dst t)) dst (bw (fst s2)) s2)
                       else
                         clear_down (\<lambda>t. \<not> in_range (fst t) (rd dst t)) dst (bw (fst s2))
                           (set_up (\<lambda>t. \<not> in_range (fst t) (rd dst t)) dst 0 (bw (fst s2)) s2))
             in case repair_sign_bits dst s3 of
                  None \<Rightarrow> None
                | Some s4 \<Rightarrow>
                    if in_range (fst s4) (rd dst s4)
                    then Some (True, set_bw_ref dst 0 (set_ref Ref_eval dst (nw (fst s4)) s4))
                    else Some (False, set_bw_ref dst 0 s4)))"

section \<open>Bounded search through references\<close>

text \<open>
  \<open>get_at_most\<close>, \<open>get_at_least\<close>, \<open>round_up\<close>, \<open>round_down\<close>, \<open>sub1\<close> and \<open>try_set\<close> once
  more, as the samplers call them: the same statements in the same order as in the
  definitions above, with \<open>src\<close> and \<open>dst\<close> reached through references.
\<close>

fun sub1_loop_ref :: "vref \<Rightarrow> nat \<Rightarrow> nat \<Rightarrow> memory \<Rightarrow> memory" where
  "sub1_loop_ref out i 0 s = s"
| "sub1_loop_ref out i (Suc k) s =
     (if rd_bit out i s then wr_bit out i False s
      else sub1_loop_ref out (Suc i) k (wr_bit out i True s))"

definition sub1_ref :: "vref \<Rightarrow> memory \<Rightarrow> memory" where
  "sub1_ref out s = sub1_loop_ref out 0 (bw (fst s)) s"

definition round_up_ref :: "vref \<Rightarrow> memory \<Rightarrow> bool \<times> memory" where
  "round_up_ref dst s =
     (if bv_lt (rd Ref_lo s) (rd Ref_hi s) then
        (if bv_le (rd Ref_hi s) (rd dst s) then (False, s)
         else if bv_gt (rd Ref_lo s) (rd dst s) then (True, set_ref dst Ref_lo (nw (fst s)) s)
         else (True, s))
      else if bv_le (rd Ref_hi s) (rd dst s) \<and> bv_gt (rd Ref_lo s) (rd dst s)
           then (True, set_ref dst Ref_lo (nw (fst s)) s)
      else (True, s))"

definition round_down_ref :: "vref \<Rightarrow> memory \<Rightarrow> bool \<times> memory" where
  "round_down_ref dst s =
     (if bv_lt (rd Ref_lo s) (rd Ref_hi s) then
        (if bv_gt (rd Ref_lo s) (rd dst s) then (False, s)
         else if bv_le (rd Ref_hi s) (rd dst s)
           then (True, sub1_ref dst (set_ref dst Ref_hi (nw (fst s)) s))
         else (True, s))
      else if bv_le (rd Ref_hi s) (rd dst s) \<and> bv_gt (rd Ref_lo s) (rd dst s)
           then (True, sub1_ref dst (set_ref dst Ref_hi (nw (fst s)) s))
      else (True, s))"

fun at_most_init_ref :: "vref \<Rightarrow> vref \<Rightarrow> nat \<Rightarrow> memory \<Rightarrow> memory" where
  "at_most_init_ref src dst 0 s = s"
| "at_most_init_ref src dst (Suc n) s =
     (let s1 = at_most_init_ref src dst n s
      in wr_word dst n
           (rd_word src n s1 AND (NOT (rd_word Ref_fixed n s1) OR rd_word Ref_bits n s1)) s1)"

fun at_most_fill_ref :: "vref \<Rightarrow> nat \<Rightarrow> memory \<Rightarrow> memory" where
  "at_most_fill_ref dst 0 s = s"
| "at_most_fill_ref dst (Suc j) s =
     at_most_fill_ref dst j
       (wr_word dst j (NOT (rd_word Ref_fixed j s) OR rd_word Ref_bits j s) s)"

fun at_most_scan_ref :: "vref \<Rightarrow> vref \<Rightarrow> nat \<Rightarrow> memory \<Rightarrow> memory" where
  "at_most_scan_ref src dst 0 s = s"
| "at_most_scan_ref src dst (Suc i) s =
     (if 0 \<noteq> (NOT (rd_word dst i s) AND rd_word src i s) then
        (let idx = log2 (NOT (rd_word dst i s) AND rd_word src i s);
             msk = (push_bit idx 1 - 1 :: digit_t);
             s1 = wr_word dst i ((NOT (rd_word Ref_fixed i s) AND msk) OR rd_word dst i s) s
         in at_most_fill_ref dst i s1)
      else at_most_scan_ref src dst i s)"

definition get_at_most_ref :: "vref \<Rightarrow> vref \<Rightarrow> memory \<Rightarrow> bool \<times> memory" where
  "get_at_most_ref src dst s =
     round_down_ref dst
       (at_most_scan_ref src dst (nw (fst s)) (at_most_init_ref src dst (nw (fst s)) s))"

fun at_least_init_ref :: "vref \<Rightarrow> vref \<Rightarrow> nat \<Rightarrow> memory \<Rightarrow> memory" where
  "at_least_init_ref src dst 0 s = s"
| "at_least_init_ref src dst (Suc n) s =
     (let s1 = at_least_init_ref src dst n s
      in wr_word dst n
           ((NOT (rd_word Ref_fixed n s1) AND rd_word src n s1) OR
            (rd_word Ref_fixed n s1 AND rd_word Ref_bits n s1)) s1)"

fun at_least_clear_ref :: "vref \<Rightarrow> nat \<Rightarrow> memory \<Rightarrow> memory" where
  "at_least_clear_ref dst 0 s = s"
| "at_least_clear_ref dst (Suc j) s =
     at_least_clear_ref dst j (wr_word dst j (rd_word dst j s AND rd_word Ref_fixed j s) s)"

fun at_least_scan_ref :: "vref \<Rightarrow> vref \<Rightarrow> nat \<Rightarrow> memory \<Rightarrow> memory" where
  "at_least_scan_ref src dst 0 s = s"
| "at_least_scan_ref src dst (Suc i) s =
     (if 0 \<noteq> (rd_word dst i s AND NOT (rd_word src i s)) then
        (let idx = log2 (rd_word dst i s AND NOT (rd_word src i s));
             msk = (push_bit idx 1 :: digit_t);
             s1 = wr_word dst i (rd_word dst i s AND (rd_word Ref_fixed i s OR msk)) s
         in at_least_clear_ref dst i s1)
      else at_least_scan_ref src dst i s)"

definition get_at_least_ref :: "vref \<Rightarrow> vref \<Rightarrow> memory \<Rightarrow> bool \<times> memory" where
  "get_at_least_ref src dst s =
     round_up_ref dst
       (at_least_scan_ref src dst (nw (fst s)) (at_least_init_ref src dst (nw (fst s)) s))"

text \<open>\<open>set(src)\<close>: \<open>for (i = nw; i-- > 0; ) eval[i] = src[i]\<close>, then
  \<open>clear_overflow_bits(eval)\<close>; and \<open>try_set(src)\<close>.\<close>

fun copy_down_ref :: "vref \<Rightarrow> vref \<Rightarrow> nat \<Rightarrow> memory \<Rightarrow> memory" where
  "copy_down_ref dst src 0 s = s"
| "copy_down_ref dst src (Suc n) s = copy_down_ref dst src n (wr_word dst n (rd_word src n s) s)"

definition set_eval_ref :: "vref \<Rightarrow> memory \<Rightarrow> memory" where
  "set_eval_ref src s =
     (let s1 = copy_down_ref Ref_eval src (nw (fst s)) s
      in wr Ref_eval (clear_overflow_bits (fst s1) (rd Ref_eval s1)) s1)"

definition try_set_ref :: "vref \<Rightarrow> memory \<Rightarrow> bool \<times> memory" where
  "try_set_ref src s =
     (if \<not> can_set (fst s) (rd src s) then (False, s) else (True, set_eval_ref src s))"

section \<open>Randomized sampling\<close>

text \<open>
  The random generator is outside the two source files; it is taken as the sequence of
  the unsigned numbers it will return.  A call \<open>r()\<close> returns the head and leaves the rest.
\<close>

type_synonym random_gen = "nat \<Rightarrow> unsigned"

definition rnd :: "random_gen \<Rightarrow> unsigned \<times> random_gen" where
  "rnd r = (r 0, \<lambda>n. r (Suc n))"

text \<open>\<open>random_bits\<close>: \<open>for (i = 0; i < sizeof(digit_t); ++i) r ^= rand() << (8 * i)\<close>.\<close>

fun random_bits_loop :: "nat \<Rightarrow> nat \<Rightarrow> digit_t \<Rightarrow> random_gen \<Rightarrow> digit_t \<times> random_gen" where
  "random_bits_loop i 0 x r = (x, r)"
| "random_bits_loop i (Suc k) x r =
     (let (y, r1) = rnd r in random_bits_loop (Suc i) k (x XOR push_bit (8 * i) y) r1)"

definition random_bits :: "random_gen \<Rightarrow> digit_t \<times> random_gen" where
  "random_bits r = random_bits_loop 0 4 0 r"

text \<open>Loop of \<open>set_random_above\<close>: \<open>dst[i] = dst[i] | (random_bits(r) & ~fixed[i])\<close>.\<close>

fun random_above_loop ::
  "vref \<Rightarrow> nat \<Rightarrow> nat \<Rightarrow> random_gen \<Rightarrow> memory \<Rightarrow> memory \<times> random_gen" where
  "random_above_loop dst i 0 r s = (s, r)"
| "random_above_loop dst i (Suc k) r s =
     (let (x, r1) = random_bits r
      in random_above_loop dst (Suc i) k r1
           (wr_word dst i (rd_word dst i s OR (x AND NOT (rd_word Ref_fixed i s))) s))"

definition set_random_above ::
  "vref \<Rightarrow> random_gen \<Rightarrow> memory \<Rightarrow> (memory \<times> random_gen) option" where
  "set_random_above dst r s =
     (let (s1, r1) = random_above_loop dst 0 (nw (fst s)) r s
      in case repair_sign_bits dst s1 of None \<Rightarrow> None | Some s2 \<Rightarrow> Some (s2, r1))"

text \<open>
  Reservoir sampling in \<open>set_random_below\<close>:
  \<open>if (dst.get(i) && !fixed.get(i) && (r() % ++n) == 0) idx = i\<close>; the generator is only
  called for a set, non-fixed bit.  \<open>idx = UINT_MAX\<close> is \<open>None\<close>.  The loop writes no vector.
\<close>

fun pick_bit ::
  "vref \<Rightarrow> memory \<Rightarrow> nat \<Rightarrow> nat \<Rightarrow> unsigned \<Rightarrow> nat option \<Rightarrow> random_gen
   \<Rightarrow> nat option \<times> random_gen" where
  "pick_bit dst s i 0 n idx r = (idx, r)"
| "pick_bit dst s i (Suc k) n idx r =
     (if rd_bit dst i s \<and> \<not> rd_bit Ref_fixed i s then
        (let (x, r1) = rnd r
         in if x mod (n + 1) = 0 then pick_bit dst s (Suc i) k (n + 1) (Some i) r1
            else pick_bit dst s (Suc i) k (n + 1) idx r1)
      else pick_bit dst s (Suc i) k n idx r)"

text \<open>\<open>for (i = 0; i < idx; ++i) if (!fixed.get(i)) dst.set(i, r() % 2 == 0)\<close>.\<close>

fun randomize_below ::
  "vref \<Rightarrow> nat \<Rightarrow> nat \<Rightarrow> random_gen \<Rightarrow> memory \<Rightarrow> memory \<times> random_gen" where
  "randomize_below dst i 0 r s = (s, r)"
| "randomize_below dst i (Suc k) r s =
     (if \<not> rd_bit Ref_fixed i s then
        (let (x, r1) = rnd r
         in randomize_below dst (Suc i) k r1 (wr_bit dst i (x mod 2 = 0) s))
      else randomize_below dst (Suc i) k r s)"

definition set_random_below ::
  "vref \<Rightarrow> random_gen \<Rightarrow> memory \<Rightarrow> (memory \<times> random_gen) option" where
  "set_random_below dst r s =
     (if is_zero (fst s) (rd dst s) then Some (s, r)
      else
        (let (idx, r1) = pick_bit dst s 0 (bw (fst s)) 0 None r in
         case idx of
           None \<Rightarrow> Some (s, r1)
         | Some ix \<Rightarrow>
             (let (s1, r2) = randomize_below dst 0 ix r1 (wr_bit dst ix False s)
              in case repair_sign_bits dst s1 of None \<Rightarrow> None | Some s2 \<Rightarrow> Some (s2, r2))))"

text \<open>
  The three samplers return the flag, the memory they leave and the generator, or \<open>None\<close>
  when \<open>repair_sign_bits\<close> leaves the vector.
\<close>

definition set_random_at_most ::
  "vref \<Rightarrow> vref \<Rightarrow> random_gen \<Rightarrow> memory \<Rightarrow> (bool \<times> memory \<times> random_gen) option" where
  "set_random_at_most src tmp r s =
     (let (ok, s1) = get_at_most_ref src tmp s in
      if \<not> ok then Some (False, s1, r)
      else if is_zero (fst s1) (rd tmp s1)
        then (let (b, s2) = try_set_ref tmp s1 in Some (b, s2, r))
      else
        (let (x, r1) = rnd r in
         if 0 = x mod 2 then (let (b, s2) = try_set_ref tmp s1 in Some (b, s2, r1))
         else
           (case set_random_below tmp r1 s1 of
              None \<Rightarrow> None
            | Some (s2, r2) \<Rightarrow>
                if bv_eq (rd Ref_lo s2) (rd Ref_hi s2) \<or> is_zero (fst s2) (rd Ref_lo s2) \<or>
                   bv_le (rd Ref_lo s2) (rd tmp s2)
                then (let (b, s3) = try_set_ref tmp s2 in Some (b, s3, r2))
                else
                  (let (ok3, s3) = get_at_most_ref src tmp s2 in
                   if \<not> ok3 then Some (False, s3, r2)
                   else (let (b, s4) = try_set_ref tmp s3 in Some (b, s4, r2))))))"

definition set_random_at_least ::
  "vref \<Rightarrow> vref \<Rightarrow> random_gen \<Rightarrow> memory \<Rightarrow> (bool \<times> memory \<times> random_gen) option" where
  "set_random_at_least src tmp r s =
     (let (ok, s1) = get_at_least_ref src tmp s in
      if \<not> ok then Some (False, s1, r)
      else if is_ones (fst s1) (rd tmp s1)
        then (let (b, s2) = try_set_ref tmp s1 in Some (b, s2, r))
      else
        (let (x, r1) = rnd r in
         if 0 = x mod 2 then (let (b, s2) = try_set_ref tmp s1 in Some (b, s2, r1))
         else
           (case set_random_above tmp r1 s1 of
              None \<Rightarrow> None
            | Some (s2, r2) \<Rightarrow>
                if bv_eq (rd Ref_lo s2) (rd Ref_hi s2) \<or> is_zero (fst s2) (rd Ref_hi s2) \<or>
                   bv_gt (rd Ref_hi s2) (rd tmp s2)
                then (let (b, s3) = try_set_ref tmp s2 in Some (b, s3, r2))
                else
                  (let (ok3, s3) = get_at_least_ref src tmp s2 in
                   if \<not> ok3 then Some (False, s3, r2)
                   else (let (b, s4) = try_set_ref tmp s3 in Some (b, s4, r2))))))"

definition set_random_in_range ::
  "vref \<Rightarrow> vref \<Rightarrow> vref \<Rightarrow> random_gen \<Rightarrow> memory \<Rightarrow> (bool \<times> memory \<times> random_gen) option" where
  "set_random_in_range l h tmp r s =
     (let (x0, r0) = rnd r in
      if 0 = x0 mod 2 then
        (let (ok, s1) = get_at_least_ref l tmp s in
         if \<not> ok then Some (False, s1, r0)
         else if bv_lt (rd h s1) (rd tmp s1) then Some (False, s1, r0)
         else if is_ones (fst s1) (rd tmp s1)
           then (let (b, s2) = try_set_ref tmp s1 in Some (b, s2, r0))
         else
           (let (x, r1) = rnd r0 in
            if 0 = x mod 2 then (let (b, s2) = try_set_ref tmp s1 in Some (b, s2, r1))
            else
              (case set_random_above tmp r1 s1 of
                 None \<Rightarrow> None
               | Some (s2, r2) \<Rightarrow>
                   (case round_down_pred tmp
                           (\<lambda>t. bv_ge (rd h t) (rd tmp t) \<and> in_range (fst t) (rd tmp t)) s2 of
                      None \<Rightarrow> None
                    | Some s3 \<Rightarrow>
                        if in_range (fst s3) (rd tmp s3) \<and> bv_le (rd l s3) (rd tmp s3) \<and>
                           bv_ge (rd h s3) (rd tmp s3)
                        then (let (b, s4) = try_set_ref tmp s3 in Some (b, s4, r2))
                        else
                          (let (ok4, s4) = get_at_least_ref l tmp s3 in
                           if \<not> ok4 then Some (False, s4, r2)
                           else if \<not> bv_ge (rd h s4) (rd tmp s4) then Some (False, s4, r2)
                           else (let (b, s5) = try_set_ref tmp s4 in Some (b, s5, r2)))))))
      else
        (let (ok, s1) = get_at_most_ref h tmp s in
         if \<not> ok then Some (False, s1, r0)
         else if bv_gt (rd l s1) (rd tmp s1) then Some (False, s1, r0)
         else if is_zero (fst s1) (rd tmp s1)
           then (let (b, s2) = try_set_ref tmp s1 in Some (b, s2, r0))
         else
           (let (x, r1) = rnd r0 in
            if 0 = x mod 2 then (let (b, s2) = try_set_ref tmp s1 in Some (b, s2, r1))
            else
              (case set_random_below tmp r1 s1 of
                 None \<Rightarrow> None
               | Some (s2, r2) \<Rightarrow>
                   (case round_up_pred tmp
                           (\<lambda>t. bv_le (rd l t) (rd tmp t) \<and> in_range (fst t) (rd tmp t)) s2 of
                      None \<Rightarrow> None
                    | Some s3 \<Rightarrow>
                        if in_range (fst s3) (rd tmp s3) \<and> bv_le (rd l s3) (rd tmp s3) \<and>
                           bv_ge (rd h s3) (rd tmp s3)
                        then (let (b, s4) = try_set_ref tmp s3 in Some (b, s4, r2))
                        else
                          (let (ok4, s4) = get_at_most_ref h tmp s3 in
                           if \<not> ok4 then Some (False, s4, r2)
                           else if \<not> bv_le (rd l s4) (rd tmp s4) then Some (False, s4, r2)
                           else (let (b, s5) = try_set_ref tmp s4 in Some (b, s5, r2))))))))"

section \<open>What a call may have written\<close>

text \<open>
  \<open>only_wrote d s s'\<close>: the memory \<open>s'\<close> is the memory \<open>s\<close> with the vector that \<open>d\<close> names
  replaced; every other vector, the size fields and the sign prefix are those of \<open>s\<close>.
\<close>

definition only_wrote :: "vref \<Rightarrow> memory \<Rightarrow> memory \<Rightarrow> bool" where
  "only_wrote d s s' = (s' = wr d (rd d s') s)"

section \<open>Concrete valuations used as test inputs\<close>

text \<open>
  An 8-bit vector as the constructor lays it out: \<open>nw = 1\<close>, \<open>mask = 0xFF\<close>, and two
  words of storage (\<open>reserve(nw + 1)\<close>), the low one holding the value.
\<close>

definition bv8 :: "digit_t \<Rightarrow> bvect" where
  "bv8 w = \<lparr>b_data = [w, 0], b_bw = 8, b_nw = 1, b_mask = 255\<rparr>"

text \<open>
  An 8-bit valuation with committed value \<open>b\<close>, speculative value \<open>e\<close>, range bounds \<open>l\<close>
  and \<open>h\<close>, and fixed mask \<open>f\<close> on top of the unused high bits \<open>0xFFFFFF00\<close> that the
  constructor fixes.
\<close>

definition val8 :: "digit_t \<Rightarrow> digit_t \<Rightarrow> digit_t \<Rightarrow> digit_t \<Rightarrow> digit_t \<Rightarrow> sls_valuation" where
  "val8 b e f l h =
     \<lparr>m_bits = bv8 b, m_lo = bv8 l, m_hi = bv8 h, m_signed_prefix = 0,
      mask_v = 255, bw = 8, nw = 1, fixed = bv8 (f OR 0xFFFFFF00), eval = bv8 e\<rparr>"

text \<open>
  Three states reached through the public interface.  \<open>odd8\<close>: construct an 8-bit
  valuation, write 1 into \<open>eval\<close>, commit it, then fix bit 0 in the public field \<open>fixed\<close>;
  every feasible value is odd.  \<open>even8\<close>: construct and fix bit 0 at once, so that every
  feasible value is even.  \<open>wrap8\<close>: construct, commit the value 1, add the wrap-around
  range \<open>[10, 5)\<close> and then fix bit 0.
\<close>

definition odd8 :: sls_valuation where
  "odd8 =
     (let v0 = new_valuation 8;
          v1 = v0\<lparr>eval := set_bit_bv (eval v0) 0 True\<rparr>;
          v2 = snd (commit_eval v1)
      in v2\<lparr>fixed := set_bit_bv (fixed v2) 0 True\<rparr>)"

definition even8 :: sls_valuation where
  "even8 = (let v0 = new_valuation 8 in v0\<lparr>fixed := set_bit_bv (fixed v0) 0 True\<rparr>)"

definition wrap8 :: sls_valuation where
  "wrap8 =
     (let v0 = new_valuation 8;
          v1 = v0\<lparr>eval := set_bit_bv (eval v0) 0 True\<rparr>;
          v2 = add_range (snd (commit_eval v1)) 10 5
      in v2\<lparr>fixed := set_bit_bv (fixed v2) 0 True\<rparr>)"

text \<open>
  \<open>odd_range8\<close>: construct an 8-bit valuation, commit the value 9, fix bit 0 and add the
  range \<open>[3, 21)\<close>.
\<close>

definition odd_range8 :: sls_valuation where
  "odd_range8 =
     (let v0 = new_valuation 8;
          v1 = v0\<lparr>eval := set_bit_bv (set_bit_bv (eval v0) 0 True) 3 True\<rparr>;
          v2 = snd (commit_eval v1);
          v3 = v2\<lparr>fixed := set_bit_bv (fixed v2) 0 True\<rparr>
      in add_range v3 3 21)"

text \<open>
  The invariant the constructor sets up for the unused high bits of the last word: they are
  all marked fixed, and the committed value is zero there.
\<close>

definition overflow_fixed :: "sls_valuation \<Rightarrow> bool" where
  "overflow_fixed v =
     (0 < nw v \<and> nw v \<le> length (b_data (m_bits v)) \<and>
      at (fixed v) (nw v - 1) AND NOT (mask_v v) = NOT (mask_v v) \<and>
      \<not> has_overflow v (m_bits v))"

text \<open>
  The size fields as the constructor and \<open>set_bw\<close> leave them: a positive bit-width, the
  word count and the mask computed from it.
\<close>

definition dims :: "sls_valuation \<Rightarrow> bool" where
  "dims v = (0 < bw v \<and> nw v = bw_words (bw v) \<and> mask_v v = bw_mask (bw v))"

section \<open>Basic facts about word arrays\<close>

lemma at_put: "at (put x i w) j = (if i = j \<and> i < length (b_data x) then w else at x j)"
  by (cases "i = j"; cases "i < length (b_data x)") (simp_all add: at_def put_def list_update_beyond)

lemma length_put [simp]: "length (b_data (put x i w)) = length (b_data x)"
  by (simp add: put_def)

lemma length_copy_words [simp]: "length (b_data (copy_words n src dst)) = length (b_data dst)"
  by (induction n) simp_all

lemma at_copy_words:
  "n \<le> length (b_data dst) \<Longrightarrow>
   at (copy_words n src dst) j = (if j < n then at src j else at dst j)"
  by (induction n) (auto simp: at_put less_Suc_eq)

lemma get_value_nonneg: "0 \<le> get_value x n"
  by (induction n) simp_all

lemma get_value_bound: "get_value x n < 2 ^ (32 * n)"
proof (induction n)
  case 0
  show ?case by simp
next
  case (Suc n)
  have "uint (at x n) \<le> 2 ^ 32 - 1"
    using uint_lt2p [of "at x n"] by simp
  then have "2 ^ (32 * n) * uint (at x n) \<le> 2 ^ (32 * n) * (2 ^ 32 - 1 :: int)"
    by (intro mult_left_mono) simp_all
  also have "\<dots> = 2 ^ (32 * Suc n) - 2 ^ (32 * n)"
    by (simp add: algebra_simps power_add)
  finally show ?case using Suc by simp
qed

lemma get_value_cong:
  "(\<And>i. i < n \<Longrightarrow> at x i = at y i) \<Longrightarrow> get_value x n = get_value y n"
  by (induction n) simp_all


lemma mpn_compare_sgn:
  "mpn_compare (b_data a) (b_data b) n = sgn (get_value a n - get_value b n)"
proof (induction n)
  case 0
  show ?case by simp
next
  case (Suc n)
  let ?p = "2 ^ (32 * n) :: int"
  have pa: "0 \<le> get_value a n" "get_value a n < ?p"
    by (rule get_value_nonneg, rule get_value_bound)
  have pb: "0 \<le> get_value b n" "get_value b n < ?p"
    by (rule get_value_nonneg, rule get_value_bound)
  consider (gt) "at b n < at a n" | (lt) "at a n < at b n" | (eq) "at a n = at b n"
    by (metis linorder_neqE)
  then show ?case
  proof cases
    case gt
    then have "uint (at b n) + 1 \<le> uint (at a n)"
      by (simp add: word_less_def)
    then have "?p * (uint (at b n) + 1) \<le> ?p * uint (at a n)"
      by (intro mult_left_mono) simp_all
    then have "get_value b (Suc n) < get_value a (Suc n)"
      using pa pb by (simp add: algebra_simps)
    with gt show ?thesis by (simp add: at_def)
  next
    case lt
    then have "uint (at a n) + 1 \<le> uint (at b n)"
      by (simp add: word_less_def)
    then have "?p * (uint (at a n) + 1) \<le> ?p * uint (at b n)"
      by (intro mult_left_mono) simp_all
    then have "get_value a (Suc n) < get_value b (Suc n)"
      using pa pb by (simp add: algebra_simps)
    moreover from lt have "\<not> at b n < at a n" by simp
    ultimately show ?thesis using lt by (simp add: at_def)
  next
    case eq
    then show ?thesis using Suc by (simp add: at_def)
  qed
qed

lemma mpn_compare_less: "mpn_compare (b_data a) (b_data b) n < 0 \<longleftrightarrow> get_value a n < get_value b n"
  by (simp add: mpn_compare_sgn)

lemma mpn_compare_le: "mpn_compare (b_data a) (b_data b) n \<le> 0 \<longleftrightarrow> get_value a n \<le> get_value b n"
  by (simp add: mpn_compare_sgn sgn_if)

lemma mpn_compare_eq: "mpn_compare (b_data a) (b_data b) n = 0 \<longleftrightarrow> get_value a n = get_value b n"
  by (simp add: mpn_compare_sgn sgn_if)

lemma and_xor_zero_iff:
  "w AND (x XOR y) = 0 \<longleftrightarrow> (\<forall>k. bit w k \<longrightarrow> bit x k = bit y k)" for w x y :: digit_t
proof
  assume z: "w AND (x XOR y) = 0"
  show "\<forall>k. bit w k \<longrightarrow> bit x k = bit y k"
  proof (intro allI impI)
    fix k assume "bit w k"
    moreover have "\<not> bit (w AND (x XOR y)) k" using z by simp
    ultimately show "bit x k = bit y k" by (simp add: bit_and_iff bit_xor_iff)
  qed
next
  assume "\<forall>k. bit w k \<longrightarrow> bit x k = bit y k"
  then show "w AND (x XOR y) = 0"
    by (intro bit_eqI) (simp add: bit_and_iff bit_xor_iff)
qed

lemma all_from_Suc:
  "(\<forall>j. i \<le> j \<and> j < i + Suc k \<longrightarrow> P j) \<longleftrightarrow>
   P i \<and> (\<forall>j. Suc i \<le> j \<and> j < Suc i + k \<longrightarrow> P j)"
  (is "?L \<longleftrightarrow> ?R")
proof
  assume ?L then show ?R by simp
next
  assume r: ?R
  show ?L
  proof (intro allI impI)
    fix j assume "i \<le> j \<and> j < i + Suc k"
    then have "j = i \<or> (Suc i \<le> j \<and> j < Suc i + k)" by arith
    with r show "P j" by blast
  qed
qed

lemma fixed_agree_iff:
  "fixed_agree fx a b i k \<longleftrightarrow> (\<forall>j. i \<le> j \<and> j < i + k \<longrightarrow> at fx j AND (at a j XOR at b j) = 0)"
proof (induction k arbitrary: i)
  case 0
  show ?case by auto
next
  case (Suc k)
  show ?case
    unfolding all_from_Suc [where P = "\<lambda>j. at fx j AND (at a j XOR at b j) = 0"]
    using Suc [of "Suc i"] by auto
qed

lemma fixed_agree_bits:
  "fixed_agree fx a b 0 n \<longleftrightarrow>
   (\<forall>j<n. \<forall>k. bit (at fx j) k \<longrightarrow> bit (at a j) k = bit (at b j) k)"
  by (simp add: fixed_agree_iff and_xor_zero_iff)

lemma get_iff: "get x i \<longleftrightarrow> bit (at x (i div 32)) (i mod 32)"
  by (simp add: get_def get_bit_word_def get_pos_mask_def and_exp_eq_0_iff_not_bit)

lemma set_bit_word:
  "w XOR (((0 - (if b then 1 else 0)) XOR w) AND push_bit p 1) =
   (if b then w OR push_bit p 1 else w AND NOT (push_bit p 1))" for w :: digit_t
  by (cases b) (auto simp: bit_eq_iff bit_simps)

lemma at_set_bit_bv:
  "at (set_bit_bv x i b) j =
   (if j = i div 32 \<and> j < length (b_data x)
    then (if b then at x j OR push_bit (i mod 32) 1 else at x j AND NOT (push_bit (i mod 32) 1))
    else at x j)"
  unfolding set_bit_bv_def Let_def at_put get_bit_word_def get_pos_mask_def set_bit_word
  by simp

lemma get_set_bit_bv:
  "i div 32 < length (b_data x) \<Longrightarrow> get (set_bit_bv x i b) j = (if j = i then b else get x j)"
proof -
  assume l: "i div 32 < length (b_data x)"
  show ?thesis
  proof (cases "j div 32 = i div 32")
    case True
    have "j = i \<longleftrightarrow> j mod 32 = i mod 32"
      using True by (metis div_mult_mod_eq)
    then show ?thesis
      using True l by (auto simp: get_iff at_set_bit_bv bit_simps)
  next
    case False
    then have "j \<noteq> i" by auto
    with False show ?thesis by (simp add: get_iff at_set_bit_bv)
  qed
qed

lemma length_set_bit_bv [simp]: "length (b_data (set_bit_bv x i b)) = length (b_data x)"
  by (simp add: set_bit_bv_def Let_def)

lemma bit_get_value: "bit (get_value x n) i \<longleftrightarrow> i < 32 * n \<and> get x i"
proof (induction n)
  case 0
  show ?case by simp
next
  case (Suc n)
  have "get_value x (Suc n) = concat_bit (32 * n) (get_value x n) (uint (at x n))"
    by (simp add: concat_bit_eq take_bit_int_eq_self get_value_nonneg get_value_bound push_bit_eq_mult)
  then have "bit (get_value x (Suc n)) i \<longleftrightarrow>
    i < 32 * n \<and> bit (get_value x n) i \<or> 32 * n \<le> i \<and> bit (at x n) (i - 32 * n)"
    using bit_imp_le_length [of "at x n" "i - 32 * n"]
    by (auto simp: bit_concat_bit_iff bit_uint_iff)
  also have "\<dots> \<longleftrightarrow> i < 32 * Suc n \<and> get x i"
  proof (cases "i < 32 * n")
    case True
    then show ?thesis using Suc by auto
  next
    case False
    show ?thesis
    proof (cases "i < 32 * Suc n")
      case True
      with False have d: "i div 32 = n" by simp
      have "i mod 32 = i - 32 * n"
        using div_mult_mod_eq [of i 32] d by simp
      with d False True show ?thesis by (simp add: get_iff)
    next
      case False
      then have "\<not> bit (at x n) (i - 32 * n)"
        by (auto dest!: bit_imp_le_length)
      with False show ?thesis by auto
    qed
  qed
  finally show ?case .
qed

lemma commit_eval_True:
  "fst (commit_eval v) \<longleftrightarrow>
   fixed_agree (fixed v) (m_bits v) (eval v) 0 (nw v) \<and> in_range v (eval v)"
  by (simp add: commit_eval_def)

lemma length_zero_words [simp]: "length (b_data (zero_words n x)) = length (b_data x)"
  by (induction n) simp_all

lemma at_zero_words:
  "n \<le> length (b_data x) \<Longrightarrow> at (zero_words n x) j = (if j < n then 0 else at x j)"
  by (induction n) (auto simp: at_put less_Suc_eq)

lemma length_fresh: "length (b_data (bvect_set_bw b bvect_empty)) = bw_words b + 1"
  by (simp add: bvect_set_bw_def bvect_empty_def reserve_def)

lemma bw_words_pos: "0 < b \<Longrightarrow> 0 < bw_words b"
  by (simp add: bw_words_def)

lemma new_valuation_fields:
  "nw (new_valuation b) = bw_words b" "mask_v (new_valuation b) = bw_mask b"
  "bw (new_valuation b) = b"
  by (simp_all add: new_valuation_def Let_def)

lemma new_valuation_fixed:
  "at (fixed (new_valuation b)) (bw_words b - 1) = NOT (bw_mask b)"
proof -
  let ?z = "zero_words (bw_words b) (bvect_set_bw b bvect_empty)"
  have "bw_words b - 1 < length (b_data ?z)"
    by (simp add: length_fresh)
  then have "at (put ?z (bw_words b - 1) (NOT (bw_mask b))) (bw_words b - 1) = NOT (bw_mask b)"
    by (simp only: at_put if_True simp_thms)
  then show ?thesis
    by (simp add: new_valuation_def Let_def)
qed

lemma new_valuation_bits:
  "0 < b \<Longrightarrow> at (m_bits (new_valuation b)) (bw_words b - 1) = 0"
proof -
  assume "0 < b"
  then have "bw_words b - 1 < bw_words b"
    using bw_words_pos [of b] by simp
  moreover have "bw_words b \<le> length (b_data (bvect_set_bw b bvect_empty))"
    by (simp add: length_fresh)
  ultimately have "at (zero_words (bw_words b) (bvect_set_bw b bvect_empty)) (bw_words b - 1) = 0"
    by (simp only: at_zero_words if_True)
  then show ?thesis
    by (simp add: new_valuation_def Let_def)
qed

lemma new_valuation_length:
  "length (b_data (m_bits (new_valuation b))) = bw_words b + 1"
  by (simp add: new_valuation_def Let_def length_fresh)

lemma overflow_fixed_new: "0 < b \<Longrightarrow> overflow_fixed (new_valuation b)"
  unfolding overflow_fixed_def has_overflow_def new_valuation_fields new_valuation_length
  using bw_words_pos [of b] new_valuation_fixed [of b] new_valuation_bits [of b]
  by simp

lemma fixed_agree_no_overflow:
  assumes inv: "overflow_fixed v"
    and ag: "fixed_agree (fixed v) x (m_bits v) 0 (nw v)"
  shows "\<not> has_overflow v x"
proof -
  let ?j = "nw v - 1"
  from inv have j: "?j < nw v" by (simp add: overflow_fixed_def)
  from inv have f: "at (fixed v) ?j AND NOT (mask_v v) = NOT (mask_v v)"
    and b: "at (m_bits v) ?j AND NOT (mask_v v) = 0"
    by (simp_all add: overflow_fixed_def has_overflow_def)
  from ag j have a: "at (fixed v) ?j AND (at x ?j XOR at (m_bits v) ?j) = 0"
    by (simp add: fixed_agree_iff)
  have "at x ?j AND NOT (mask_v v) = 0"
  proof (rule bit_eqI)
    fix k
    show "bit (at x ?j AND NOT (mask_v v)) k = bit (0::digit_t) k"
    proof (cases "bit (NOT (mask_v v)) k")
      case True
      with f have "bit (at (fixed v) ?j) k"
        by (metis bit_and_iff)
      with a have "bit (at x ?j) k = bit (at (m_bits v) ?j) k"
        by (simp add: and_xor_zero_iff)
      moreover from b True have "\<not> bit (at (m_bits v) ?j) k"
        by (metis bit_and_iff bit_0_eq bot_apply bot_bool_def)
      ultimately show ?thesis by (simp add: bit_and_iff)
    next
      case False
      then show ?thesis by (simp add: bit_and_iff)
    qed
  qed
  then show ?thesis by (simp add: has_overflow_def)
qed

lemma can_set_no_overflow: "overflow_fixed v \<Longrightarrow> can_set v x \<Longrightarrow> \<not> has_overflow v x"
  by (rule fixed_agree_no_overflow) (simp_all add: can_set_def split: if_splits)

lemma fixed_agree_sym: "fixed_agree fx a b i k = fixed_agree fx b a i k"
  by (simp add: fixed_agree_iff xor.commute)

lemma commit_eval_overflow_fixed:
  assumes inv: "overflow_fixed v" and ok: "fst (commit_eval v)"
  shows "\<not> has_overflow v (eval v) \<and> overflow_fixed (snd (commit_eval v))"
proof -
  from ok have ag: "fixed_agree (fixed v) (eval v) (m_bits v) 0 (nw v)"
    by (simp add: commit_eval_True fixed_agree_sym)
  with inv have e: "\<not> has_overflow v (eval v)"
    by (rule fixed_agree_no_overflow)
  from ok have s: "snd (commit_eval v) = v\<lparr>m_bits := copy_words (nw v) (eval v) (m_bits v)\<rparr>"
    by (simp add: commit_eval_def split: if_splits)
  from inv have l: "nw v \<le> length (b_data (m_bits v))" and p: "0 < nw v"
    by (simp_all add: overflow_fixed_def)
  have "at (copy_words (nw v) (eval v) (m_bits v)) (nw v - 1) = at (eval v) (nw v - 1)"
    using l p by (simp add: at_copy_words)
  with e inv show ?thesis
    by (simp add: s overflow_fixed_def has_overflow_def)
qed

section \<open>Evaluation on 8-bit vectors\<close>

lemma get_bv8: "i < 32 \<Longrightarrow> get (bv8 w) i = bit w i"
  by (simp add: get_iff bv8_def at_def)

lemma set_bit_bv8:
  "i < 32 \<Longrightarrow> set_bit_bv (bv8 w) i b =
     bv8 (if b then w OR push_bit i 1 else w AND NOT (push_bit i 1))"
  unfolding set_bit_bv_def Let_def get_bit_word_def get_pos_mask_def set_bit_word
  by (simp add: put_def bv8_def at_def)

lemma at_bv8: "at (bv8 w) 0 = w" "at (bv8 w) (Suc 0) = 0"
  by (simp_all add: at_def bv8_def)

lemma put_bv8: "put (bv8 w) 0 x = bv8 x"
  by (simp add: put_def bv8_def)

lemma bv8_fields: "b_nw (bv8 w) = 1" "b_data (bv8 w) = [w, 0]"
  by (simp_all add: bv8_def)

lemma val8_fields:
  "m_bits (val8 b e f l h) = bv8 b" "eval (val8 b e f l h) = bv8 e"
  "fixed (val8 b e f l h) = bv8 (f OR 0xFFFFFF00)"
  "m_lo (val8 b e f l h) = bv8 l" "m_hi (val8 b e f l h) = bv8 h"
  "nw (val8 b e f l h) = 1" "bw (val8 b e f l h) = 8" "mask_v (val8 b e f l h) = 255"
  "m_signed_prefix (val8 b e f l h) = 0"
  by (simp_all add: val8_def)

lemma val8_update:
  "(val8 b e f l h)\<lparr>m_bits := bv8 b'\<rparr> = val8 b' e f l h"
  "(val8 b e f l h)\<lparr>eval := bv8 e'\<rparr> = val8 b e' f l h"
  "(val8 b e f l h)\<lparr>m_lo := bv8 l'\<rparr> = val8 b e f l' h"
  "(val8 b e f l h)\<lparr>m_hi := bv8 h'\<rparr> = val8 b e f l h'"
  by (simp_all add: val8_def)

lemma bv8_cmp:
  "bv_eq (bv8 a) (bv8 b) \<longleftrightarrow> uint a = uint b"
  "bv_lt (bv8 a) (bv8 b) \<longleftrightarrow> uint a < uint b"
  "bv_le (bv8 a) (bv8 b) \<longleftrightarrow> uint a \<le> uint b"
  "bv_gt (bv8 a) (bv8 b) \<longleftrightarrow> uint b < uint a"
  "bv_ge (bv8 a) (bv8 b) \<longleftrightarrow> uint b \<le> uint a"
  "bv_ne (bv8 a) (bv8 b) \<longleftrightarrow> uint a \<noteq> uint b"
  by (auto simp: bv_eq_def bv_lt_def bv_le_def bv_gt_def bv_ge_def bv_ne_def bv8_def
      word_less_def word_le_def)

lemma in_range8:
  "in_range (val8 b e f l h) (bv8 x) \<longleftrightarrow>
     (if uint l = uint h then True
      else if uint l < uint h then uint l \<le> uint x \<and> uint x < uint h
      else uint l \<le> uint x \<or> uint x < uint h)"
  unfolding in_range_def Let_def mpn_compare_less mpn_compare_le mpn_compare_eq
  by (auto simp: val8_def bv8_def at_def)

lemma fresh_tmp8: "bvect_set_bw 8 (bvect_empty\<lparr>b_data := [0]\<rparr>) = bv8 0"
  by (simp add: bvect_set_bw_def bvect_empty_def reserve_def bw_words_def bw_mask_def bv8_def)

lemma get_value_bv8: "get_value (bv8 w) 1 = uint w"
  by (simp add: bv8_def at_def)

lemma set_bv8: "set_bv (val8 b e f l h) (bv8 x) (bv8 y) = bv8 y"
  by (simp add: set_bv_def val8_def bv8_def put_def at_def)

lemma clear_overflow8: "clear_overflow_bits (val8 b e f l h) (bv8 x) = bv8 (x AND 255)"
  by (simp add: clear_overflow_bits_def val8_def bv8_def put_def at_def)

lemma has_overflow8: "has_overflow (val8 b e f l h) (bv8 x) \<longleftrightarrow> x AND NOT 255 \<noteq> 0"
  by (auto simp: has_overflow_def val8_def bv8_def at_def)

lemma fixed_agree8:
  "fixed_agree (bv8 fx) (bv8 a) (bv8 b) 0 1 \<longleftrightarrow> fx AND (a XOR b) = 0"
  by (auto simp: bv8_def at_def)

section \<open>Unrolling the loops on numerals\<close>

lemma sub1_loop_numeral:
  "sub1_loop out i (numeral k) =
     (if get out i then set_bit_bv out i False
      else sub1_loop (set_bit_bv out i True) (i + 1) (pred_numeral k))"
  by (simp add: numeral_eq_Suc)

lemma set_value_loop_numeral:
  "set_value_loop bits n (numeral k) =
   set_bit_bv (set_value_loop bits n (pred_numeral k)) (pred_numeral k) (bit n (pred_numeral k))"
  by (simp add: numeral_eq_Suc)

lemma find_max_diff_numeral:
  "find_max_diff v (numeral k) =
     (if get (fixed v) (pred_numeral k) \<and>
         (get (m_bits v) (pred_numeral k) \<noteq> get (m_lo v) (pred_numeral k))
      then pred_numeral k else find_max_diff v (pred_numeral k))"
  by (simp add: numeral_eq_Suc)

lemma tighten_low_numeral:
  "tighten_low v (numeral k) tmp =
     set_bit_bv (tighten_low v (pred_numeral k) tmp) (pred_numeral k)
       (get (fixed v) (pred_numeral k) \<and> get (m_bits v) (pred_numeral k))"
  by (simp add: numeral_eq_Suc)

lemma tighten_high_numeral:
  "tighten_high v found0 i (numeral k) tmp =
     (if found0 \<or> get (m_lo v) i \<or> get (fixed v) i
      then tighten_high v found0 (i + 1) (pred_numeral k)
             (set_bit_bv tmp i (get (m_lo v) i \<and> get (fixed v) i))
      else tighten_high v True (i + 1) (pred_numeral k) (set_bit_bv tmp i True))"
  by (simp add: numeral_eq_Suc)

lemma lo_from_fixed_numeral:
  "lo_from_fixed v (numeral k) l =
     lo_from_fixed v (pred_numeral k)
       (set_bit_bv l (pred_numeral k) (get (fixed v) (pred_numeral k) \<and> get (m_bits v) (pred_numeral k)))"
  by (simp add: numeral_eq_Suc)

lemma tighten_lo_numeral:
  "tighten_lo v (numeral k) =
     (if \<not> get (fixed v) (pred_numeral k) then tighten_lo v (pred_numeral k)
      else if get (m_bits v) (pred_numeral k) = get (m_lo v) (pred_numeral k)
        then tighten_lo v (pred_numeral k)
      else if get (m_bits v) (pred_numeral k)
        then v\<lparr>m_lo := lo_from_fixed v (pred_numeral k) (set_bit_bv (m_lo v) (pred_numeral k) True)\<rparr>
        else v\<lparr>m_lo := lo_from_fixed v (bw v) (m_lo v)\<rparr>)"
  by (simp add: numeral_eq_Suc)

lemmas eval8 = get_bv8 set_bit_bv8 at_bv8 put_bv8 bv8_fields val8_fields val8_update bv8_cmp
  in_range8 get_value_bv8 set_bv8 clear_overflow8 has_overflow8 fixed_agree8 fresh_tmp8

lemmas unroll = sub1_loop_numeral set_value_loop_numeral find_max_diff_numeral
  tighten_low_numeral tighten_high_numeral lo_from_fixed_numeral tighten_lo_numeral


lemma new_valuation_8: "new_valuation 8 = val8 0 0 0 0 0"
  by (simp add: new_valuation_def bw_words_def bw_mask_def bvect_set_bw_def bvect_empty_def
      reserve_def put_def val8_def bv8_def Let_def)

lemma val8_update_fixed:
  "(val8 b e f l h)\<lparr>fixed := bv8 (f' OR 0xFFFFFF00)\<rparr> = val8 b e f' l h"
  by (simp add: val8_def)

lemma commit8:
  "commit_eval (val8 b e f l h) =
     (if (f OR 0xFFFFFF00) AND (b XOR e) \<noteq> 0 then (False, val8 b e f l h)
      else if \<not> in_range (val8 b e f l h) (bv8 e) then (False, val8 b e f l h)
      else (True, val8 e e f l h))"
  by (simp add: commit_eval_def eval8)

lemma odd8_eq: "odd8 = val8 1 1 1 0 0"
proof -
  have "(val8 1 1 0 0 0)\<lparr>fixed := bv8 (1 OR 0xFFFFFF00)\<rparr> = val8 1 1 1 0 0"
    by (rule val8_update_fixed)
  then show ?thesis
    by (simp add: odd8_def new_valuation_8 commit8 eval8)
qed

lemma even8_eq: "even8 = val8 0 0 1 0 0"
proof -
  have "(val8 0 0 0 0 0)\<lparr>fixed := bv8 (1 OR 0xFFFFFF00)\<rparr> = val8 0 0 1 0 0"
    by (rule val8_update_fixed)
  then show ?thesis
    by (simp add: even8_def new_valuation_8 eval8)
qed

lemma can_set8:
  "can_set (val8 b e f l h) (bv8 x) \<longleftrightarrow>
     (f OR 0xFFFFFF00) AND (x XOR b) = 0 \<and> in_range (val8 b e f l h) (bv8 x)"
  by (simp add: can_set_def eval8 del: in_range8)

lemma log2_from_numeral:
  "log2_from w (numeral k) =
     (if bit w (numeral k) then numeral k else log2_from w (pred_numeral k))"
  by (simp add: numeral_eq_Suc)

lemma get_at_most8:
  "get_at_most (val8 b e f l h) (bv8 s) (bv8 d) =
     round_down (val8 b e f l h)
       (at_most_scan (val8 b e f l h) (bv8 s) 1
          (bv8 (s AND (NOT (f OR 0xFFFFFF00) OR b))))"
  by (simp add: get_at_most_def eval8)

lemma get_at_least8:
  "get_at_least (val8 b e f l h) (bv8 s) (bv8 d) =
     round_up (val8 b e f l h)
       (at_least_scan (val8 b e f l h) (bv8 s) 1
          (bv8 ((NOT (f OR 0xFFFFFF00) AND s) OR ((f OR 0xFFFFFF00) AND b))))"
  by (simp add: get_at_least_def eval8)

lemma add_range8_plain: "add_range (val8 1 1 0 0 0) 10 5 = val8 1 1 0 10 5"
proof -
  have i: "add_range_intersect (val8 1 1 0 0 0) 10 5 = val8 1 1 0 10 5"
    by (simp add: add_range_intersect_def set_value_def eval8 unroll)
  have b: "tighten_bits (val8 1 1 0 10 5) = val8 1 1 0 10 5"
    by (simp add: tighten_bits_def eval8)
  have l: "tighten_lo (val8 1 1 0 10 5) 8 = val8 1 1 0 10 5"
    by (simp add: eval8 unroll)
  show ?thesis
    by (simp add: add_range_def tighten_range_def i b l eval8)
qed

lemma wrap8_eq: "wrap8 = val8 1 1 1 10 5"
proof -
  have "(val8 1 1 0 10 5)\<lparr>fixed := bv8 (1 OR 0xFFFFFF00)\<rparr> = val8 1 1 1 10 5"
    by (rule val8_update_fixed)
  then show ?thesis
    by (simp add: wrap8_def new_valuation_8 commit8 add_range8_plain eval8)
qed

lemma add_range8_odd_wrap: "add_range odd8 10 5 = val8 1 1 1 11 5"
proof -
  have i: "add_range_intersect (val8 1 1 1 0 0) 10 5 = val8 1 1 1 10 5"
    by (simp add: add_range_intersect_def set_value_def eval8 unroll)
  have b: "tighten_bits (val8 1 1 1 10 5) = val8 1 1 1 10 5"
    by (simp add: tighten_bits_def eval8)
  have l: "tighten_lo (val8 1 1 1 10 5) 8 = val8 1 1 1 11 5"
    by (simp add: eval8 unroll)
  show ?thesis
    by (simp add: odd8_eq add_range_def tighten_range_def i b l eval8)
qed

text \<open>
  From the well-formed state \<open>odd8\<close>, \<open>add_range(4, 8)\<close> leads to a state that
  \<open>well_formed\<close> rejects (see \<open>add_range8_not_well_formed\<close> below).
\<close>

lemma add_range8_odd_4_8: "add_range odd8 4 8 = val8 3 1 1 5 8"
proof -
  have i: "add_range_intersect (val8 1 1 1 0 0) 4 8 = val8 1 1 1 4 8"
    by (simp add: add_range_intersect_def set_value_def eval8 unroll)
  have b: "tighten_bits (val8 1 1 1 4 8) = val8 3 1 1 4 8"
    by (simp add: tighten_bits_def eval8 unroll)
  have l: "tighten_lo (val8 3 1 1 4 8) 8 = val8 3 1 1 5 8"
    by (simp add: eval8 unroll)
  show ?thesis
    by (simp add: odd8_eq add_range_def tighten_range_def i b l eval8)
qed

lemma add_range8_not_well_formed:
  "well_formed odd8 \<and> \<not> well_formed (add_range odd8 4 8)"
  by (simp add: add_range8_odd_4_8 well_formed_def has_range_def eval8)
    (simp add: odd8_eq eval8)


section \<open>Bits of vectors under the size fields\<close>

lemma bit_bw_mask: "bit (bw_mask b) k \<longleftrightarrow> k < 32 \<and> (b mod 32 = 0 \<or> k < b mod 32)"
proof -
  have m: "(push_bit (b mod 32) 1 - 1 :: digit_t) = mask (b mod 32)"
    by (simp add: mask_eq_exp_minus_1)
  have z: "(mask (b mod 32) :: digit_t) = 0 \<longleftrightarrow> b mod 32 = 0"
    by (simp add: mask_eq_0_iff)
  show ?thesis
    unfolding bw_mask_def Let_def m z
    by (auto simp: bit_mask_iff bit_not_iff dest: bit_imp_le_length)
qed

lemma bw_words_eq: "bw_words b = (if b mod 32 = 0 then b div 32 else b div 32 + 1)"
proof -
  define q where "q = b div 32"
  define r where "r = b mod 32"
  have b: "b = 32 * q + r" and r: "r < 32"
    unfolding q_def r_def by simp_all
  have "(b + 32 - 1) div 32 = (if r = 0 then q else q + 1)"
    by (rule div_nat_eqI) (use b r in \<open>auto split: if_splits\<close>)
  then show ?thesis
    unfolding q_def r_def bw_words_def .
qed

lemma top_word_arith:
  assumes "0 < b" "i div 32 = bw_words b - 1"
  shows "(i mod 32 < 32 \<and> (b mod 32 = 0 \<or> i mod 32 < b mod 32)) \<longleftrightarrow> i < b"
proof -
  define q where "q = b div 32"
  define s where "s = b mod 32"
  define p where "p = i div 32"
  define r where "r = i mod 32"
  have b: "b = 32 * q + s" and s: "s < 32"
    unfolding q_def s_def by simp_all
  have i: "i = 32 * p + r" and r: "r < 32"
    unfolding p_def r_def by simp_all
  have p: "p = (if s = 0 then q else q + 1) - 1"
    using assms(2) unfolding bw_words_eq p_def q_def s_def .
  have "(r < 32 \<and> (s = 0 \<or> r < s)) \<longleftrightarrow> 32 * p + r < 32 * q + s"
    using assms(1) b s r p by (auto split: if_splits)
  then show ?thesis
    using i b unfolding r_def s_def by simp
qed

lemma bw_words_bounds:
  assumes "0 < b"
  shows "0 < bw_words b \<and> b \<le> 32 * bw_words b \<and> 32 * (bw_words b - 1) < b"
proof -
  define q where "q = b div 32"
  define s where "s = b mod 32"
  have b: "b = 32 * q + s" and s: "s < 32"
    unfolding q_def s_def by simp_all
  have w: "bw_words b = (if s = 0 then q else q + 1)"
    unfolding bw_words_eq q_def s_def ..
  show ?thesis
    unfolding w using assms b s by (auto split: if_splits)
qed

lemma dims_nw: "dims v \<Longrightarrow> 0 < nw v \<and> bw v \<le> 32 * nw v \<and> 32 * (nw v - 1) < bw v"
proof -
  assume "dims v"
  then have p: "0 < bw v" and n: "nw v = bw_words (bw v)"
    unfolding dims_def by blast+
  from bw_words_bounds [OF p] show ?thesis
    unfolding n .
qed

lemma dims_top_word:
  assumes "dims v" "i div 32 = nw v - 1"
  shows "bit (mask_v v) (i mod 32) \<longleftrightarrow> i < bw v"
proof -
  from assms(1) have n: "0 < bw v" "nw v = bw_words (bw v)" "mask_v v = bw_mask (bw v)"
    unfolding dims_def by blast+
  from assms(2) have "i div 32 = bw_words (bw v) - 1"
    unfolding n(2) .
  from top_word_arith [OF n(1) this] show ?thesis
    unfolding n(3) bit_bw_mask .
qed

lemma get_put:
  "get (put x j w) i = (if i div 32 = j \<and> j < length (b_data x) then bit w (i mod 32) else get x i)"
  by (auto simp: get_iff at_put)

lemma get_clear_overflow:
  assumes "dims v" "nw v \<le> length (b_data x)"
  shows "get (clear_overflow_bits v x) i \<longleftrightarrow> get x i \<and> \<not> (bw v \<le> i \<and> i div 32 = nw v - 1)"
proof -
  from assms have l: "nw v - 1 < length (b_data x)"
    using dims_nw [of v] by simp
  show ?thesis
  proof (cases "i div 32 = nw v - 1")
    case True
    with l show ?thesis
      unfolding clear_overflow_bits_def get_put
      using dims_top_word [OF assms(1) True]
      by (auto simp: bit_and_iff get_iff)
  next
    case False
    then show ?thesis
      unfolding clear_overflow_bits_def get_put by auto
  qed
qed

lemma length_clear_overflow [simp]:
  "length (b_data (clear_overflow_bits v x)) = length (b_data x)"
  by (simp add: clear_overflow_bits_def)

lemma nonzero_word_bit: "w \<noteq> 0 \<longleftrightarrow> (\<exists>k<32. bit w k)" for w :: digit_t
proof
  assume "w \<noteq> 0"
  then obtain k where "bit w k"
    by (auto simp: bit_eq_iff)
  then show "\<exists>k<32. bit w k"
    using bit_imp_le_length [of w k] by auto
next
  assume "\<exists>k<32. bit w k"
  then show "w \<noteq> 0" by auto
qed

lemma at_nonzero_iff: "at x n \<noteq> 0 \<longleftrightarrow> (\<exists>i. 32 * n \<le> i \<and> i < 32 * n + 32 \<and> get x i)"
proof
  assume "at x n \<noteq> 0"
  then obtain k where k: "k < 32" "bit (at x n) k"
    unfolding nonzero_word_bit by blast
  have "(32 * n + k) div 32 = n" "(32 * n + k) mod 32 = k"
    using k(1) by simp_all
  with k have "get x (32 * n + k)" by (simp add: get_iff)
  with k(1) show "\<exists>i. 32 * n \<le> i \<and> i < 32 * n + 32 \<and> get x i"
    by (intro exI [of _ "32 * n + k"]) simp
next
  assume "\<exists>i. 32 * n \<le> i \<and> i < 32 * n + 32 \<and> get x i"
  then obtain i where i: "32 * n \<le> i" "i < 32 * n + 32" "get x i" by blast
  from i(1,2) have "i div 32 = n"
    by (intro div_nat_eqI) simp_all
  with i(3) have "bit (at x n) (i mod 32)" by (simp add: get_iff)
  then show "at x n \<noteq> 0" by auto
qed

lemma has_overflow_iff:
  assumes "dims v"
  shows "has_overflow v x \<longleftrightarrow> (\<exists>i. bw v \<le> i \<and> i < 32 * nw v \<and> get x i)"
proof -
  from dims_nw [OF assms] have n: "0 < nw v" "bw v \<le> 32 * nw v" "32 * (nw v - 1) < bw v"
    by blast+
  have "has_overflow v x \<longleftrightarrow> (\<exists>k<32. bit (at x (nw v - 1)) k \<and> \<not> bit (mask_v v) k)"
    unfolding has_overflow_def
    using nonzero_word_bit [of "at x (nw v - 1) AND NOT (mask_v v)"]
    by (auto simp: bit_and_iff bit_not_iff)
  also have "\<dots> \<longleftrightarrow> (\<exists>i. bw v \<le> i \<and> i < 32 * nw v \<and> get x i)"
  proof
    assume "\<exists>k<32. bit (at x (nw v - 1)) k \<and> \<not> bit (mask_v v) k"
    then obtain k where k: "k < 32" "bit (at x (nw v - 1)) k" "\<not> bit (mask_v v) k" by blast
    let ?i = "32 * (nw v - 1) + k"
    have d: "?i div 32 = nw v - 1" "?i mod 32 = k" using k(1) by simp_all
    from dims_top_word [OF assms d(1)] k(3) d(2) have "bw v \<le> ?i" by simp
    moreover have "?i < 32 * nw v" using k(1) n(1) by simp
    moreover have "get x ?i" using k(2) d by (simp add: get_iff)
    ultimately show "\<exists>i. bw v \<le> i \<and> i < 32 * nw v \<and> get x i" by blast
  next
    assume "\<exists>i. bw v \<le> i \<and> i < 32 * nw v \<and> get x i"
    then obtain i where i: "bw v \<le> i" "i < 32 * nw v" "get x i" by blast
    have d: "i div 32 = nw v - 1"
      using i(1,2) n by (intro div_nat_eqI) simp_all
    from dims_top_word [OF assms d] i(1) have "\<not> bit (mask_v v) (i mod 32)" by simp
    moreover from i(3) d have "bit (at x (nw v - 1)) (i mod 32)" by (simp add: get_iff)
    ultimately show "\<exists>k<32. bit (at x (nw v - 1)) k \<and> \<not> bit (mask_v v) k"
      by (intro exI [of _ "i mod 32"]) simp
  qed
  finally show ?thesis .
qed

lemma length_set_value_loop [simp]:
  "length (b_data (set_value_loop x n k)) = length (b_data x)"
  by (induction k) simp_all

lemma get_set_value_loop:
  "k \<le> 32 * length (b_data x) \<Longrightarrow>
   get (set_value_loop x n k) i = (if i < k then bit n i else get x i)"
proof (induction k)
  case 0
  show ?case by simp
next
  case (Suc k)
  then have "k div 32 < length (b_data (set_value_loop x n k))"
    by (simp add: less_mult_imp_div_less mult.commute)
  with Suc show ?case
    by (auto simp: get_set_bit_bv less_Suc_eq)
qed

lemma get_value_set_value:
  assumes "dims v" "nw v \<le> length (b_data x)"
  shows "get_value (set_value v x n) (nw v) = take_bit (bw v) n"
proof (rule bit_eqI)
  fix i
  from dims_nw [OF assms(1)] have n: "0 < nw v" "bw v \<le> 32 * nw v" "32 * (nw v - 1) < bw v"
    by blast+
  have k: "bw v \<le> 32 * length (b_data x)"
    using n(2) assms(2) by simp
  have l: "nw v \<le> length (b_data (set_value_loop x n (bw v)))"
    using assms(2) by simp
  have d: "bw v \<le> i \<Longrightarrow> i < 32 * nw v \<Longrightarrow> i div 32 = nw v - 1"
    using n by (intro div_nat_eqI) simp_all
  show "bit (get_value (set_value v x n) (nw v)) i = bit (take_bit (bw v) n) i"
    unfolding bit_get_value set_value_def get_clear_overflow [OF assms(1) l]
      get_set_value_loop [OF k] bit_take_bit_iff
    using n(2) d by auto
qed

lemma length_set_value [simp]: "length (b_data (set_value v x n)) = length (b_data x)"
  by (simp add: set_value_def)

section \<open>The intersection step and the tightening of lo\<close>

lemma bv_eq_values: "bv_eq a b \<longleftrightarrow> get_value a (b_nw a) = get_value b (b_nw a)"
  unfolding bv_eq_def using mpn_compare_eq [of a b "b_nw a"] by auto

lemma intersect_lo:
  assumes ne: "lo v \<noteq> hi v" and nw: "b_nw (m_lo v) = nw v"
    and ins: "(lo v < hi v \<and> lo v < l \<and> l < hi v) \<or> (hi v < lo v \<and> (lo v < l \<or> l < hi v))"
  shows "m_lo (add_range_intersect v l h) = set_value v (m_lo v) l \<and>
         nw (add_range_intersect v l h) = nw v \<and> bw (add_range_intersect v l h) = bw v \<and>
         fixed (add_range_intersect v l h) = fixed v"
proof -
  have e: "\<not> bv_eq (m_lo v) (m_hi v)"
    using ne unfolding bv_eq_values nw lo_def hi_def .
  from ins show ?thesis
  proof
    assume a: "lo v < hi v \<and> lo v < l \<and> l < hi v"
    then show ?thesis
      unfolding add_range_intersect_def Let_def using e by simp
  next
    assume a: "hi v < lo v \<and> (lo v < l \<or> l < hi v)"
    then have "\<not> lo v < hi v" by simp
    with a show ?thesis
      unfolding add_range_intersect_def Let_def using e by auto
  qed
qed

lemma tighten_bits_fields:
  "m_lo (tighten_bits v) = m_lo v \<and> nw (tighten_bits v) = nw v \<and>
   bw (tighten_bits v) = bw v \<and> fixed (tighten_bits v) = fixed v"
  by (simp add: tighten_bits_def Let_def)

lemma tighten_lo_no_fixed: "(\<forall>i<n. \<not> get (fixed v) i) \<Longrightarrow> tighten_lo v n = v"
  by (induction n) simp_all

lemma tighten_range_no_fixed:
  assumes "\<forall>i<bw v. \<not> get (fixed v) i"
  shows "m_lo (tighten_range v) = m_lo v \<and> nw (tighten_range v) = nw v"
proof -
  have "\<forall>i<bw (tighten_bits v). \<not> get (fixed (tighten_bits v)) i"
    using assms by (simp add: tighten_bits_fields)
  then have "tighten_lo (tighten_bits v) (bw (tighten_bits v)) = tighten_bits v"
    by (rule tighten_lo_no_fixed)
  then show ?thesis
    by (simp add: tighten_range_def tighten_bits_fields)
qed

lemma add_range8_narrow_odd: "add_range (val8 9 9 1 3 21) 4 30 = val8 9 9 1 5 21"
proof -
  have i: "add_range_intersect (val8 9 9 1 3 21) 4 30 = val8 9 9 1 4 21"
    by (simp add: add_range_intersect_def set_value_def lo_def hi_def eval8 unroll)
  have b: "tighten_bits (val8 9 9 1 4 21) = val8 9 9 1 4 21"
    by (simp add: tighten_bits_def eval8)
  have l: "tighten_lo (val8 9 9 1 4 21) 8 = val8 9 9 1 5 21"
    by (simp add: eval8 unroll)
  show ?thesis
    by (simp add: add_range_def tighten_range_def i b l eval8)
qed

lemma or_not_mask_absorb:
  "x AND NOT m = NOT m \<Longrightarrow> (x AND m) OR NOT m = x" for x m :: digit_t
proof -
  assume a: "x AND NOT m = NOT m"
  show ?thesis
  proof (rule bit_eqI)
    fix k
    have "bit (x AND NOT m) k = bit (NOT m) k"
      using a by simp
    then show "bit ((x AND m) OR NOT m) k = bit x k"
      by (auto simp: bit_and_iff bit_or_iff bit_not_iff dest: bit_imp_le_length)
  qed
qed

lemma val8_set_fixed:
  "x AND 0xFFFFFF00 = 0xFFFFFF00 \<Longrightarrow>
   (val8 b e f l h)\<lparr>fixed := bv8 x\<rparr> = val8 b e (x AND 255) l h"
proof -
  have m: "(0xFFFFFF00 :: digit_t) = NOT 255" by simp
  assume "x AND 0xFFFFFF00 = 0xFFFFFF00"
  then have "(x AND 255) OR 0xFFFFFF00 = x"
    unfolding m by (rule or_not_mask_absorb)
  then show ?thesis
    by (simp add: val8_def)
qed

lemma odd_range8_eq: "odd_range8 = val8 9 9 1 3 21"
proof -
  have i: "add_range_intersect (val8 9 9 1 0 0) 3 21 = val8 9 9 1 3 21"
    by (simp add: add_range_intersect_def set_value_def eval8 unroll)
  have b: "tighten_bits (val8 9 9 1 3 21) = val8 9 9 1 3 21"
    by (simp add: tighten_bits_def eval8)
  have l: "tighten_lo (val8 9 9 1 3 21) 8 = val8 9 9 1 3 21"
    by (simp add: eval8 unroll)
  have a: "add_range (val8 9 9 1 0 0) 3 21 = val8 9 9 1 3 21"
    by (simp add: add_range_def tighten_range_def i b l eval8)
  show ?thesis
    by (simp add: odd_range8_def new_valuation_8 commit8 val8_set_fixed a eval8)
qed

text \<open>
  The second test of the non-wrapped branch of \<open>add_range\<close> reads
  \<open>old_hi < h && h < old_hi\<close>: with the range \<open>[3, 21)\<close> and no fixed bit,
  \<open>add_range(1, 10)\<close> leaves \<open>hi = 21\<close> although \<open>3 < 10 < 21\<close>.
\<close>

lemma add_range8_hi_kept: "add_range (val8 9 9 0 3 21) 1 10 = val8 9 9 0 3 21"
proof -
  have i: "add_range_intersect (val8 9 9 0 3 21) 1 10 = val8 9 9 0 3 21"
    by (simp add: add_range_intersect_def lo_def hi_def eval8)
  have b: "tighten_bits (val8 9 9 0 3 21) = val8 9 9 0 3 21"
    by (simp add: tighten_bits_def eval8)
  have l: "tighten_lo (val8 9 9 0 3 21) 8 = val8 9 9 0 3 21"
    by (simp add: eval8 unroll)
  show ?thesis
    by (simp add: add_range_def tighten_range_def i b l eval8)
qed


lemma dims_val8: "dims (val8 b e f l h)"
  by (simp add: dims_def val8_def bw_words_def bw_mask_def)

lemma no_fixed8: "i < 8 \<Longrightarrow> \<not> get (bv8 0xFFFFFF00) i"
proof -
  assume i: "i < 8"
  have "(0xFFFFFF00 :: digit_t) = push_bit 8 0xFFFFFF" by simp
  then have "\<not> bit (0xFFFFFF00 :: digit_t) i"
    using i by (simp only: bit_push_bit_iff) simp
  with i show ?thesis by (simp add: get_bv8)
qed



section \<open>Values without overflow bits\<close>

lemma int_less_exp_iff_bits:
  "0 \<le> V \<Longrightarrow> V < 2 ^ n \<longleftrightarrow> (\<forall>i. bit V i \<longrightarrow> i < n)" for V :: int
proof -
  assume nn: "0 \<le> V"
  have "V < 2 ^ n \<longleftrightarrow> take_bit n V = V"
    using nn by (simp add: take_bit_int_eq_self_iff)
  also have "\<dots> \<longleftrightarrow> (\<forall>i. bit V i \<longrightarrow> i < n)"
    by (auto simp: bit_eq_iff bit_take_bit_iff)
  finally show ?thesis .
qed

lemma no_overflow_value:
  assumes "dims v"
  shows "\<not> has_overflow v x \<longleftrightarrow> get_value x (nw v) < 2 ^ bw v"
proof -
  from dims_nw [OF assms] have n: "bw v \<le> 32 * nw v" by blast
  show ?thesis
    unfolding has_overflow_iff [OF assms]
      int_less_exp_iff_bits [OF get_value_nonneg] bit_get_value
    using n by (auto simp: not_le)
qed

section \<open>The conversion loop of to\_nat\<close>

lemma any_bit_from_iff: "any_bit_from d j k \<longleftrightarrow> (\<exists>m. j \<le> m \<and> m < j + k \<and> get d m)"
proof (induction k arbitrary: j)
  case 0
  show ?case by simp
next
  case (Suc k)
  have "(\<exists>m. j \<le> m \<and> m < j + Suc k \<and> get d m) \<longleftrightarrow>
        get d j \<or> (\<exists>m. Suc j \<le> m \<and> m < Suc j + k \<and> get d m)"
    using all_from_Suc [of j k "\<lambda>m. \<not> get d m"] by blast
  then show ?case using Suc [of "Suc j"] by simp
qed

lemma to_nat_loop_value:
  fixes V :: int
  assumes bits: "\<forall>j<i + k. get d j = bit V j"
    and V: "0 \<le> V" "V < 2 ^ (i + k)"
    and p: "uint p = 2 ^ i" and val: "uint val = take_bit i V"
    and below: "\<forall>j<i. 2 ^ j < uint max_n"
    and bound: "uint max_n < 2 ^ 31"
    and K: "uint max_n \<le> 2 ^ K" "\<forall>j<K. 2 ^ j < uint max_n"
  shows "uint (to_nat_loop d max_n i k p val) = (if V < 2 ^ K then V else uint max_n)"
  using bits V p val below
proof (induction k arbitrary: i p val)
  case 0
  have "i \<le> K"
  proof (rule ccontr)
    assume "\<not> i \<le> K"
    then have "2 ^ K < uint max_n" using "0.prems"(6) by simp
    with K(1) show False by simp
  qed
  then have "(2::int) ^ i \<le> 2 ^ K" by simp
  moreover have "V < 2 ^ i" using "0.prems"(3) by simp
  ultimately have "V < 2 ^ K" by (rule order.strict_trans2 [rotated])
  moreover have "take_bit i V = V"
    using "0.prems"(2,3) by (simp add: take_bit_int_eq_self)
  ultimately show ?case using "0.prems"(5) by simp
next
  case (Suc k)
  show ?case
  proof (cases "max_n \<le> p")
    case True
    then have le: "uint max_n \<le> 2 ^ i"
      using Suc.prems(4) by (simp add: word_le_def)
    have "K = i"
    proof (rule antisym)
      show "K \<le> i"
      proof (rule ccontr)
        assume "\<not> K \<le> i"
        then have "2 ^ i < uint max_n" using K(2) by simp
        with le show False by simp
      qed
      show "i \<le> K"
      proof (rule ccontr)
        assume "\<not> i \<le> K"
        then have "2 ^ K < uint max_n" using Suc.prems(6) by simp
        with K(1) show False by simp
      qed
    qed
    have a: "any_bit_from d i (Suc k) \<longleftrightarrow> \<not> V < 2 ^ i"
    proof -
      have top: "bit V m \<Longrightarrow> m < i + Suc k" for m
        using Suc.prems(2,3) int_less_exp_iff_bits [of V "i + Suc k"] by blast
      have "any_bit_from d i (Suc k) \<longleftrightarrow> (\<exists>m. i \<le> m \<and> m < i + Suc k \<and> bit V m)"
        unfolding any_bit_from_iff using Suc.prems(1) by auto
      also have "\<dots> \<longleftrightarrow> \<not> (\<forall>m. bit V m \<longrightarrow> m < i)"
        using top by (auto simp: not_less)
      also have "\<dots> \<longleftrightarrow> \<not> V < 2 ^ i"
        using int_less_exp_iff_bits [OF Suc.prems(2), of i] by simp
      finally show ?thesis .
    qed
    show ?thesis
    proof (cases "V < 2 ^ i")
      case True
      then have "take_bit i V = V"
        using Suc.prems(2) by (simp add: take_bit_int_eq_self)
      with True a \<open>max_n \<le> p\<close> Suc.prems(5) show ?thesis
        unfolding \<open>K = i\<close> by simp
    next
      case False
      with a \<open>max_n \<le> p\<close> show ?thesis
        unfolding \<open>K = i\<close> by simp
    qed
  next
    case False
    then have lt: "2 ^ i < uint max_n"
      using Suc.prems(4) by (simp add: word_le_def not_le)
    with bound have "(2::int) ^ i < 2 ^ 31" by simp
    then have i: "i < 31"
      by (rule power_less_imp_less_exp [rotated]) simp
    let ?p = "push_bit 1 p :: unsigned"
    let ?val = "(if get d i then val + p else val)"
    have p2: "(2::int) * 2 ^ i < 2 ^ 32"
    proof -
      have "(2::int) * 2 ^ i = 2 ^ Suc i" by simp
      also have "\<dots> < 2 ^ 32" using i by (intro power_strict_increasing) simp_all
      finally show ?thesis .
    qed
    have 1: "\<forall>j<Suc i + k. get d j = bit V j" using Suc.prems(1) by simp
    have 2: "V < 2 ^ (Suc i + k)" using Suc.prems(3) by simp
    have 3: "uint ?p = 2 ^ Suc i"
    proof -
      have "uint ?p = (2 * uint p) mod 2 ^ 32"
        by (simp add: push_bit_eq_mult uint_word_ariths mult.commute)
      also have "\<dots> = 2 * 2 ^ i"
        unfolding Suc.prems(4) using p2 by simp
      finally show ?thesis by simp
    qed
    have 4: "uint ?val = take_bit (Suc i) V"
    proof (cases "get d i")
      case True
      then have b: "bit V i" using Suc.prems(1) by simp
      have tb: "0 \<le> take_bit i V" "take_bit i V < 2 ^ i" by simp_all
      have "uint (val + p) = (take_bit i V + 2 ^ i) mod 2 ^ 32"
        by (simp add: uint_word_ariths Suc.prems(4,5))
      also have "\<dots> = take_bit i V + 2 ^ i"
      proof (rule mod_pos_pos_trivial)
        show "0 \<le> take_bit i V + 2 ^ i" by simp
        from tb(2) have "take_bit i V + 2 ^ i < 2 * 2 ^ i" by linarith
        with p2 show "take_bit i V + 2 ^ i < 2 ^ 32" by linarith
      qed
      finally show ?thesis
        using True b by (simp add: take_bit_Suc_from_most)
    next
      case False
      then have "\<not> bit V i" using Suc.prems(1) by simp
      with False show ?thesis
        by (simp add: take_bit_Suc_from_most Suc.prems(5))
    qed
    have 5: "\<forall>j<Suc i. 2 ^ j < uint max_n"
      using Suc.prems(6) lt by (auto simp: less_Suc_eq)
    from Suc.IH [OF 1 Suc.prems(2) 2 3 4 5] False show ?thesis
      by simp
  qed
qed

lemma any_bit_from_numeral:
  "any_bit_from d j (numeral k) =
     (if get d j then True else any_bit_from d (j + 1) (pred_numeral k))"
  by (simp add: numeral_eq_Suc)

lemma to_nat_loop_numeral:
  "to_nat_loop d max_n i (numeral k) p val =
     (if max_n \<le> p then (if any_bit_from d i (numeral k) then max_n else val)
      else to_nat_loop d max_n (i + 1) (pred_numeral k) (push_bit 1 p)
             (if get d i then val + p else val))"
  by (simp add: numeral_eq_Suc)

lemma to_nat8_7_5: "to_nat (val8 7 7 0 0 0) 5 = 7"
  by (simp add: to_nat_def eval8 to_nat_loop_numeral any_bit_from_numeral word_le_def)



section \<open>The arithmetic backend and the overflow flags\<close>

lemma length_store_digits [simp]: "length (b_data (store_digits out s n)) = length (b_data out)"
  by (induction n) simp_all

lemma get_store_digits:
  "n \<le> length (b_data out) \<Longrightarrow>
   get (store_digits out s n) i = (if i < 32 * n then bit s i else get out i)"
proof (induction n)
  case 0
  show ?case by simp
next
  case (Suc n)
  then have l: "n < length (b_data (store_digits out s n))" by simp
  show ?case
  proof (cases "i div 32 = n")
    case True
    have i: "i = 32 * n + i mod 32"
      using True div_mult_mod_eq [of i 32] by simp
    have r: "i mod 32 < 32" by simp
    have "bit (word_of_int (drop_bit (32 * n) s) :: digit_t) (i mod 32) = bit s (32 * n + i mod 32)"
      unfolding bit_word_of_int_iff bit_drop_bit_eq using r by simp
    moreover have "i < 32 * Suc n" using i r by simp
    ultimately show ?thesis
      using True l i by (simp add: get_put)
  next
    case False
    have "i < 32 * Suc n \<longleftrightarrow> i < 32 * n"
    proof
      assume a: "i < 32 * Suc n"
      show "i < 32 * n"
      proof (rule ccontr)
        assume "\<not> i < 32 * n"
        with a have "i div 32 = n" by (intro div_nat_eqI) simp_all
        with False show False by simp
      qed
    qed simp
    with False Suc show ?thesis
      by (simp add: get_put)
  qed
qed

lemma high_words_nonzero_iff:
  "high_words_nonzero out i k ov \<longleftrightarrow> ov \<or> (\<exists>j. i \<le> j \<and> j < i + k \<and> at out j \<noteq> 0)"
proof (induction k arbitrary: i ov)
  case 0
  show ?case by auto
next
  case (Suc k)
  have "(\<exists>j. i \<le> j \<and> j < i + Suc k \<and> at out j \<noteq> 0) \<longleftrightarrow>
        at out i \<noteq> 0 \<or> (\<exists>j. Suc i \<le> j \<and> j < Suc i + k \<and> at out j \<noteq> 0)"
    using all_from_Suc [of i k "\<lambda>j. at out j = 0"] by blast
  then show ?case using Suc [of "Suc i" "ov \<or> at out i \<noteq> 0"] by auto
qed

lemma words_nonzero_bits:
  "(\<exists>j. n \<le> j \<and> j < n + k \<and> at x j \<noteq> 0) \<longleftrightarrow>
   (\<exists>i. 32 * n \<le> i \<and> i < 32 * (n + k) \<and> get x i)"
proof
  assume "\<exists>j. n \<le> j \<and> j < n + k \<and> at x j \<noteq> 0"
  then obtain j where j: "n \<le> j" "j < n + k" "at x j \<noteq> 0" by blast
  from j(3) obtain i where i: "32 * j \<le> i" "i < 32 * j + 32" "get x i"
    unfolding at_nonzero_iff by blast
  from i(1) j(1) have "32 * n \<le> i" by simp
  moreover from i(2) j(2) have "i < 32 * (n + k)" by simp
  ultimately show "\<exists>i. 32 * n \<le> i \<and> i < 32 * (n + k) \<and> get x i"
    using i(3) by blast
next
  assume "\<exists>i. 32 * n \<le> i \<and> i < 32 * (n + k) \<and> get x i"
  then obtain i where i: "32 * n \<le> i" "i < 32 * (n + k)" "get x i" by blast
  define j where "j = i div 32"
  define r where "r = i mod 32"
  have e: "i = 32 * j + r" and r: "r < 32"
    unfolding j_def r_def by simp_all
  have "n \<le> j" using i(1) e r by simp
  moreover have "j < n + k" using i(2) e r by simp
  moreover have "at x j \<noteq> 0"
    unfolding at_nonzero_iff using e r i(3) by (intro exI [of _ i]) simp
  ultimately show "\<exists>j. n \<le> j \<and> j < n + k \<and> at x j \<noteq> 0" by blast
qed

lemma overflow_flag_value:
  fixes S :: int
  assumes d: "dims v" and S: "0 \<le> S" "S < 2 ^ (32 * m)" and m: "nw v \<le> m"
    and g: "\<forall>i<32 * m. get x i = bit S i"
  shows "(has_overflow v x \<or> (\<exists>i. 32 * nw v \<le> i \<and> i < 32 * m \<and> get x i)) \<longleftrightarrow> 2 ^ bw v \<le> S"
proof -
  from dims_nw [OF d] have n: "bw v \<le> 32 * nw v" by blast
  from m have nm: "32 * nw v \<le> 32 * m" by simp
  have top: "bit S i \<Longrightarrow> i < 32 * m" for i
    using S int_less_exp_iff_bits [of S "32 * m"] by blast
  have "(has_overflow v x \<or> (\<exists>i. 32 * nw v \<le> i \<and> i < 32 * m \<and> get x i)) \<longleftrightarrow>
        (\<exists>i. bw v \<le> i \<and> bit S i)"
  proof
    assume "has_overflow v x \<or> (\<exists>i. 32 * nw v \<le> i \<and> i < 32 * m \<and> get x i)"
    then show "\<exists>i. bw v \<le> i \<and> bit S i"
    proof
      assume "has_overflow v x"
      then obtain i where i: "bw v \<le> i" "i < 32 * nw v" "get x i"
        unfolding has_overflow_iff [OF d] by blast
      from i(2) nm have "i < 32 * m" by simp
      with g i(3) have "bit S i" by simp
      with i(1) show ?thesis by blast
    next
      assume "\<exists>i. 32 * nw v \<le> i \<and> i < 32 * m \<and> get x i"
      then obtain i where i: "32 * nw v \<le> i" "i < 32 * m" "get x i" by blast
      from g i(2,3) have "bit S i" by simp
      moreover from i(1) n have "bw v \<le> i" by simp
      ultimately show ?thesis by blast
    qed
  next
    assume "\<exists>i. bw v \<le> i \<and> bit S i"
    then obtain i where i: "bw v \<le> i" "bit S i" by blast
    from top [OF i(2)] have im: "i < 32 * m" .
    with g i(2) have gx: "get x i" by simp
    show "has_overflow v x \<or> (\<exists>i. 32 * nw v \<le> i \<and> i < 32 * m \<and> get x i)"
    proof (cases "i < 32 * nw v")
      case True
      with i(1) gx have "has_overflow v x"
        unfolding has_overflow_iff [OF d] by blast
      then show ?thesis ..
    next
      case False
      with im gx show ?thesis by (intro disjI2 exI [of _ i]) simp
    qed
  qed
  also have "\<dots> \<longleftrightarrow> \<not> (\<forall>i. bit S i \<longrightarrow> i < bw v)"
    by (auto simp: not_less)
  also have "\<dots> \<longleftrightarrow> \<not> S < 2 ^ bw v"
    unfolding int_less_exp_iff_bits [OF S(1), of "bw v"] ..
  also have "\<dots> \<longleftrightarrow> 2 ^ bw v \<le> S"
    by (rule not_less)
  finally show ?thesis .
qed

lemma cleared_value:
  fixes S :: int
  assumes d: "dims v" and l: "nw v \<le> length (b_data x)"
    and g: "\<forall>i<32 * nw v. get x i = bit S i"
  shows "get_value (clear_overflow_bits v x) (nw v) = S mod 2 ^ bw v"
proof -
  from dims_nw [OF d] have n: "0 < nw v" "bw v \<le> 32 * nw v" "32 * (nw v - 1) < bw v"
    by blast+
  have e: "i div 32 = nw v - 1" if "bw v \<le> i" "i < 32 * nw v" for i
    using n that by (intro div_nat_eqI) simp_all
  have "get_value (clear_overflow_bits v x) (nw v) = take_bit (bw v) S"
  proof (rule bit_eqI)
    fix i
    have "(i < 32 * nw v \<and> get x i \<and> \<not> (bw v \<le> i \<and> i div 32 = nw v - 1)) \<longleftrightarrow>
          (i < bw v \<and> bit S i)"
    proof (cases "i < bw v")
      case True
      with n(2) have "i < 32 * nw v" by simp
      with g True show ?thesis by simp
    next
      case False
      then have b: "bw v \<le> i" by simp
      show ?thesis
      proof (cases "i < 32 * nw v")
        case True
        from e [OF b True] b False show ?thesis by simp
      next
        case False
        with \<open>\<not> i < bw v\<close> show ?thesis by simp
      qed
    qed
    then show "bit (get_value (clear_overflow_bits v x) (nw v)) i = bit (take_bit (bw v) S) i"
      unfolding bit_get_value get_clear_overflow [OF d l] bit_take_bit_iff .
  qed
  then show ?thesis by (simp add: take_bit_eq_mod)
qed

lemma sum_below:
  fixes A B :: int
  assumes "dims v" "0 \<le> A" "A < 2 ^ bw v" "0 \<le> B" "B < 2 ^ bw v"
  shows "A + B < 2 ^ (32 * (nw v + 1))"
proof -
  from dims_nw [OF assms(1)] have "bw v \<le> 32 * nw v" by blast
  then have "Suc (bw v) \<le> 32 * (nw v + 1)" by simp
  then have "(2::int) ^ Suc (bw v) \<le> 2 ^ (32 * (nw v + 1))"
    by (intro power_increasing) simp_all
  moreover have "A + B < 2 ^ Suc (bw v)"
    using assms(3,5) by simp
  ultimately show ?thesis by linarith
qed

lemma product_below:
  fixes A B :: int
  assumes "dims v" "0 \<le> A" "A < 2 ^ bw v" "0 \<le> B" "B < 2 ^ bw v"
  shows "A * B < 2 ^ (32 * (2 * nw v))"
proof -
  from dims_nw [OF assms(1)] have "bw v \<le> 32 * nw v" by blast
  then have "bw v + bw v \<le> 32 * (2 * nw v)" by simp
  then have "(2::int) ^ (bw v + bw v) \<le> 2 ^ (32 * (2 * nw v))"
    by (intro power_increasing) simp_all
  moreover have "A * B < 2 ^ bw v * 2 ^ bw v"
    using assms(2-5) by (intro mult_strict_mono') simp_all
  ultimately show ?thesis by (simp add: power_add)
qed

lemma set_add_flag_value:
  assumes d: "dims v" and a: "\<not> has_overflow v a" and b: "\<not> has_overflow v b"
    and l: "nw v + 1 \<le> length (b_data out)"
  shows "(fst (set_add v out a b) \<longleftrightarrow>
            2 ^ bw v \<le> get_value a (nw v) + get_value b (nw v)) \<and>
         get_value (snd (set_add v out a b)) (nw v) =
            (get_value a (nw v) + get_value b (nw v)) mod 2 ^ bw v"
proof -
  let ?S = "get_value a (nw v) + get_value b (nw v)"
  let ?o = "mpn_add a b (nw v) out"
  have A: "get_value a (nw v) < 2 ^ bw v" and B: "get_value b (nw v) < 2 ^ bw v"
    using a b no_overflow_value [OF d] by blast+
  have S: "0 \<le> ?S" "?S < 2 ^ (32 * (nw v + 1))"
    using sum_below [OF d get_value_nonneg A get_value_nonneg B] get_value_nonneg [of a]
      get_value_nonneg [of b] by simp_all
  have g: "\<forall>i<32 * (nw v + 1). get ?o i = bit ?S i"
    unfolding mpn_add_def using get_store_digits [OF l] by simp
  have top: "at ?o (nw v) \<noteq> 0 \<longleftrightarrow> (\<exists>i. 32 * nw v \<le> i \<and> i < 32 * (nw v + 1) \<and> get ?o i)"
    unfolding at_nonzero_iff by (simp add: add.commute)
  have f: "fst (set_add v out a b) \<longleftrightarrow>
      has_overflow v ?o \<or> (\<exists>i. 32 * nw v \<le> i \<and> i < 32 * (nw v + 1) \<and> get ?o i)"
    unfolding set_add_def Let_def fst_conv top by blast
  have lo: "nw v \<le> length (b_data ?o)"
    using l by (simp add: mpn_add_def)
  have g': "\<forall>i<32 * nw v. get ?o i = bit ?S i"
    using g by simp
  have "get_value (snd (set_add v out a b)) (nw v) = ?S mod 2 ^ bw v"
    unfolding set_add_def Let_def snd_conv by (rule cleared_value [OF d lo g'])
  moreover have "fst (set_add v out a b) \<longleftrightarrow> 2 ^ bw v \<le> ?S"
    unfolding f by (rule overflow_flag_value [OF d S _ g]) simp
  ultimately show ?thesis by blast
qed

lemma set_mul_flag_value:
  assumes d: "dims v" and a: "\<not> has_overflow v a" and b: "\<not> has_overflow v b"
    and l: "2 * nw v \<le> length (b_data out)"
  shows "(fst (set_mul v out a b True) \<longleftrightarrow>
            2 ^ bw v \<le> get_value a (nw v) * get_value b (nw v)) \<and>
         get_value (snd (set_mul v out a b True)) (nw v) =
            (get_value a (nw v) * get_value b (nw v)) mod 2 ^ bw v"
proof -
  let ?P = "get_value a (nw v) * get_value b (nw v)"
  let ?o = "mpn_mul a b (nw v) out"
  have A: "get_value a (nw v) < 2 ^ bw v" and B: "get_value b (nw v) < 2 ^ bw v"
    using a b no_overflow_value [OF d] by blast+
  have P: "0 \<le> ?P" "?P < 2 ^ (32 * (2 * nw v))"
    using product_below [OF d get_value_nonneg A get_value_nonneg B] get_value_nonneg [of a]
      get_value_nonneg [of b] by simp_all
  have g: "\<forall>i<32 * (2 * nw v). get ?o i = bit ?P i"
    unfolding mpn_mul_def using get_store_digits [OF l] by simp
  have w: "(\<exists>j. nw v \<le> j \<and> j < nw v + nw v \<and> at ?o j \<noteq> 0) \<longleftrightarrow>
           (\<exists>i. 32 * nw v \<le> i \<and> i < 32 * (2 * nw v) \<and> get ?o i)"
    unfolding words_nonzero_bits by (simp add: mult_2)
  have f: "fst (set_mul v out a b True) \<longleftrightarrow>
      has_overflow v ?o \<or> (\<exists>i. 32 * nw v \<le> i \<and> i < 32 * (2 * nw v) \<and> get ?o i)"
    unfolding set_mul_def Let_def fst_conv if_True high_words_nonzero_iff w ..
  have lo: "nw v \<le> length (b_data ?o)"
    using l by (simp add: mpn_mul_def)
  have g': "\<forall>i<32 * nw v. get ?o i = bit ?P i"
    using g by simp
  have "get_value (snd (set_mul v out a b True)) (nw v) = ?P mod 2 ^ bw v"
    unfolding set_mul_def Let_def snd_conv by (rule cleared_value [OF d lo g'])
  moreover have "fst (set_mul v out a b True) \<longleftrightarrow> 2 ^ bw v \<le> ?P"
    unfolding f by (rule overflow_flag_value [OF d P _ g]) simp
  ultimately show ?thesis by blast
qed



section \<open>The freshly constructed valuation\<close>

lemma get_zero_words:
  "n \<le> length (b_data x) \<Longrightarrow> i < 32 * n \<Longrightarrow> \<not> get (zero_words n x) i"
proof -
  assume l: "n \<le> length (b_data x)" and i: "i < 32 * n"
  from i have "i div 32 < n" by (simp add: less_mult_imp_div_less mult.commute)
  with l show ?thesis by (simp add: get_iff at_zero_words)
qed

lemma new_valuation_zero:
  "i < 32 * bw_words b \<Longrightarrow>
   \<not> get (m_bits (new_valuation b)) i \<and> \<not> get (m_lo (new_valuation b)) i \<and>
   \<not> get (m_hi (new_valuation b)) i \<and> \<not> get (eval (new_valuation b)) i"
  by (simp add: new_valuation_def Let_def get_zero_words length_fresh)

lemma new_valuation_fixed_bits:
  assumes "0 < b" "i < 32 * bw_words b"
  shows "get (fixed (new_valuation b)) i \<longleftrightarrow> b \<le> i"
proof -
  let ?z = "zero_words (bw_words b) (bvect_set_bw b bvect_empty)"
  from bw_words_bounds [OF assms(1)]
  have n: "0 < bw_words b" "b \<le> 32 * bw_words b" "32 * (bw_words b - 1) < b" by blast+
  have f: "fixed (new_valuation b) = put ?z (bw_words b - 1) (NOT (bw_mask b))"
    by (simp add: new_valuation_def Let_def)
  have l: "bw_words b - 1 < length (b_data ?z)"
    by (simp add: length_fresh)
  have z: "\<not> get ?z i"
    using assms(2) by (simp add: get_zero_words length_fresh)
  show ?thesis
  proof (cases "i div 32 = bw_words b - 1")
    case True
    have "get (fixed (new_valuation b)) i \<longleftrightarrow> bit (NOT (bw_mask b)) (i mod 32)"
      unfolding f get_put using True l by simp
    also have "\<dots> \<longleftrightarrow> \<not> (i mod 32 < 32 \<and> (b mod 32 = 0 \<or> i mod 32 < b mod 32))"
      by (simp add: bit_not_iff bit_bw_mask)
    also have "\<dots> \<longleftrightarrow> b \<le> i"
      unfolding top_word_arith [OF assms(1) True] by (simp add: not_less)
    finally show ?thesis .
  next
    case False
    have "i div 32 < bw_words b"
      using assms(2) by (simp add: less_mult_imp_div_less mult.commute)
    with False have "i div 32 < bw_words b - 1" by simp
    then have "i < 32 * (bw_words b - 1)"
      using div_mult_mod_eq [of i 32] by (simp add: div_less_iff_less_mult mult.commute)
    with n(3) have "\<not> b \<le> i" by simp
    moreover have "\<not> get (fixed (new_valuation b)) i"
      unfolding f get_put using False z by simp
    ultimately show ?thesis by simp
  qed
qed

lemma dims_new_valuation: "0 < b \<Longrightarrow> dims (new_valuation b)"
  by (simp add: dims_def new_valuation_fields)

lemma can_set_new_valuation:
  assumes "0 < b" "can_set (new_valuation b) x" "b \<le> i" "i < 32 * bw_words b"
  shows "\<not> get x i"
proof -
  from can_set_no_overflow [OF overflow_fixed_new [OF assms(1)] assms(2)]
  have "\<not> has_overflow (new_valuation b) x" .
  then show ?thesis
    unfolding has_overflow_iff [OF dims_new_valuation [OF assms(1)]] new_valuation_fields
    using assms(3,4) by blast
qed

text \<open>
  When bit 0 is fixed first and the range \<open>[10, 5)\<close> is added afterwards, \<open>tighten_range\<close>
  stores \<open>lo = 11\<close>, and \<open>get_at_least\<close> with \<open>src = 7\<close> returns that stored bound.
\<close>

lemma get_at_least_after_add_range:
  "add_range odd8 10 5 = val8 1 1 1 11 5 \<and>
   get_at_least (add_range odd8 10 5) (bv8 7) (bv8 0) = (True, bv8 11)"
  by (simp add: add_range8_odd_wrap get_at_least8 round_up_def eval8)

section \<open>What tighten\_range does to the fixed bits\<close>

lemma div32_less: "i < 32 * n \<Longrightarrow> i div 32 < n" for i n :: nat
  by (simp add: less_mult_imp_div_less mult.commute)

lemma length_tighten_low [simp]: "length (b_data (tighten_low v n tmp)) = length (b_data tmp)"
  by (induction n) simp_all

lemma length_tighten_high [simp]:
  "length (b_data (tighten_high v f i k tmp)) = length (b_data tmp)"
  by (induction k arbitrary: f i tmp) simp_all

lemma length_lo_from_fixed [simp]: "length (b_data (lo_from_fixed v n l)) = length (b_data l)"
  by (induction n arbitrary: l) simp_all

lemma get_tighten_low:
  "n \<le> 32 * length (b_data tmp) \<Longrightarrow>
   get (tighten_low v n tmp) j = (if j < n then get (fixed v) j \<and> get (m_bits v) j else get tmp j)"
proof (induction n)
  case 0
  show ?case by simp
next
  case (Suc n)
  then have "n div 32 < length (b_data (tighten_low v n tmp))"
    by (simp add: div32_less)
  with Suc show ?case
    by (auto simp: get_set_bit_bv less_Suc_eq)
qed

lemma get_tighten_high:
  "i + k \<le> 32 * length (b_data tmp) \<Longrightarrow> get (fixed v) j \<Longrightarrow>
   get (tighten_high v f i k tmp) j = (if i \<le> j \<and> j < i + k then get (m_lo v) j else get tmp j)"
proof (induction k arbitrary: f i tmp)
  case 0
  show ?case by auto
next
  case (Suc k)
  have l: "i div 32 < length (b_data tmp)"
    using Suc.prems(1) by (simp add: div32_less)
  have b: "Suc i + k \<le> 32 * length (b_data (set_bit_bv tmp i x))" for x
    using Suc.prems(1) by simp
  show ?case
  proof (cases "f \<or> get (m_lo v) i \<or> get (fixed v) i")
    case True
    then show ?thesis
      using Suc.IH [OF b Suc.prems(2)] Suc.prems(2) l
      by (auto simp: get_set_bit_bv)
  next
    case False
    then have "j \<noteq> i" using Suc.prems(2) by auto
    with False show ?thesis
      using Suc.IH [OF b Suc.prems(2)] l
      by (auto simp: get_set_bit_bv)
  qed
qed

lemma get_lo_from_fixed:
  "n \<le> 32 * length (b_data l) \<Longrightarrow>
   get (lo_from_fixed v n l) j = (if j < n then get (fixed v) j \<and> get (m_bits v) j else get l j)"
proof (induction n arbitrary: l)
  case 0
  show ?case by simp
next
  case (Suc n)
  have d: "n div 32 < length (b_data l)"
    using Suc.prems by (simp add: div32_less)
  have b: "n \<le> 32 * length (b_data (set_bit_bv l n x))" for x
    using Suc.prems by simp
  show ?case
    using Suc.IH [OF b] d by (auto simp: get_set_bit_bv less_Suc_eq)
qed

lemma find_max_diff_ge:
  "i < n \<Longrightarrow> get (fixed v) i \<Longrightarrow> get (m_bits v) i \<noteq> get (m_lo v) i \<Longrightarrow>
   i \<le> find_max_diff v n"
  by (induction n) (auto simp: less_Suc_eq)

lemma find_max_diff_le: "n \<le> bw v \<Longrightarrow> find_max_diff v n \<le> bw v"
  by (induction n) auto

lemma get_copy_words:
  "n \<le> length (b_data dst) \<Longrightarrow> i < 32 * n \<Longrightarrow> get (copy_words n src dst) i = get src i"
  by (simp add: get_iff at_copy_words div32_less)

lemma length_reserve: "length (reserve n xs) = max n (length xs)"
  by (simp add: reserve_def)

lemma tighten_bits_keeps_fixed_bits:
  assumes d: "dims v" and lb: "nw v \<le> length (b_data (m_bits v))"
    and i: "i < bw v" and f: "get (fixed v) i"
  shows "get (m_bits (tighten_bits v)) i = get (m_bits v) i"
proof -
  from dims_nw [OF d] have n: "0 < nw v" "bw v \<le> 32 * nw v" by blast+
  from i n have i32: "i < 32 * nw v" by simp
  from d have nwd: "nw v = bw_words (bw v)" by (simp add: dims_def)
  show ?thesis
  proof (cases "in_range v (m_bits v)")
    case True
    then show ?thesis by (simp add: tighten_bits_def)
  next
    case out: False
    show ?thesis
    proof (cases "fixed_agree (fixed v) (m_bits v) (m_lo v) 0 (nw v)")
      case True
      then have "bit (at (m_bits v) (i div 32)) (i mod 32) = bit (at (m_lo v) (i div 32)) (i mod 32)"
        unfolding fixed_agree_bits using f div32_less [OF i32] by (simp add: get_iff)
      then have "get (m_lo v) i = get (m_bits v) i"
        by (simp add: get_iff)
      moreover have "m_bits (tighten_bits v) = copy_words (nw v) (m_lo v) (m_bits v)"
        using out True by (simp add: tighten_bits_def set_bv_def)
      ultimately show ?thesis
        using get_copy_words [OF lb i32] by simp
    next
      case False
      define tmp0 where "tmp0 = bvect_set_bw (bw v) (bvect_empty\<lparr>b_data := replicate (b_nw (m_bits v)) 0\<rparr>)"
      define tmp1 where "tmp1 = set_bv v tmp0 (m_lo v)"
      define md where "md = find_max_diff v (bw v)"
      define tmp2 where "tmp2 = tighten_low v (Suc md) tmp1"
      define tmp3 where "tmp3 = tighten_high v False (Suc md) (bw v - Suc md) tmp2"
      have m: "m_bits (tighten_bits v) = copy_words (nw v) tmp3 (m_bits v)"
        using out False
        by (simp add: tighten_bits_def Let_def set_bv_def tmp0_def tmp1_def md_def tmp2_def tmp3_def)
      have l0: "nw v + 1 \<le> length (b_data tmp0)"
        by (simp add: tmp0_def bvect_set_bw_def length_reserve nwd)
      then have l1: "nw v + 1 \<le> length (b_data tmp1)"
        by (simp add: tmp1_def set_bv_def)
      have mdle: "md \<le> bw v"
        unfolding md_def by (rule find_max_diff_le) simp
      have b2: "Suc md \<le> 32 * length (b_data tmp1)"
        using mdle n(2) l1 by simp
      have b3: "Suc md + (bw v - Suc md) \<le> 32 * length (b_data tmp2)"
        using mdle n(2) l1 by (simp add: tmp2_def)
      have "get (m_bits (tighten_bits v)) i = get tmp3 i"
        unfolding m by (rule get_copy_words [OF lb i32])
      also have "\<dots> = (if Suc md \<le> i \<and> i < Suc md + (bw v - Suc md) then get (m_lo v) i else get tmp2 i)"
        unfolding tmp3_def by (rule get_tighten_high [OF b3 f])
      also have "\<dots> = get (m_bits v) i"
      proof (cases "i \<le> md")
        case True
        then show ?thesis
          unfolding tmp2_def get_tighten_low [OF b2] using f by simp
      next
        case False
        then have "\<not> (get (m_bits v) i \<noteq> get (m_lo v) i)"
          using find_max_diff_ge [OF i f] unfolding md_def by blast
        with False i show ?thesis by simp
      qed
      finally show ?thesis .
    qed
  qed
qed

lemma tighten_bits_other_fields:
  "m_hi (tighten_bits v) = m_hi v \<and> eval (tighten_bits v) = eval v \<and>
   mask_v (tighten_bits v) = mask_v v"
  by (simp add: tighten_bits_def Let_def)

lemma tighten_lo_fields:
  "m_bits (tighten_lo v n) = m_bits v \<and> m_hi (tighten_lo v n) = m_hi v \<and>
   nw (tighten_lo v n) = nw v \<and> bw (tighten_lo v n) = bw v \<and> fixed (tighten_lo v n) = fixed v"
  by (induction n) simp_all

lemma tighten_lo_agree:
  "(\<forall>i<n. get (fixed v) i \<longrightarrow> get (m_bits v) i = get (m_lo v) i) \<Longrightarrow> tighten_lo v n = v"
  by (induction n) simp_all

lemma tighten_lo_differs:
  assumes "n \<le> bw v" "bw v \<le> 32 * length (b_data (m_lo v))"
    and "\<exists>i<n. get (fixed v) i \<and> get (m_bits v) i \<noteq> get (m_lo v) i"
  shows "\<exists>i<bw v. get (m_lo (tighten_lo v n)) i \<noteq> get (m_lo v) i"
  using assms(1,3)
proof (induction n)
  case 0
  then show ?case by simp
next
  case (Suc n)
  have nb: "n < bw v" using Suc.prems(1) by simp
  have d: "n div 32 < length (b_data (m_lo v))"
    using nb assms(2) by (intro div32_less) simp
  show ?case
  proof (cases "get (fixed v) n \<and> get (m_bits v) n \<noteq> get (m_lo v) n")
    case False
    with Suc.prems(2) have "\<exists>i<n. get (fixed v) i \<and> get (m_bits v) i \<noteq> get (m_lo v) i"
      by (auto simp: less_Suc_eq)
    with Suc.IH nb False show ?thesis by auto
  next
    case True
    show ?thesis
    proof (cases "get (m_bits v) n")
      case b: True
      have "n \<le> 32 * length (b_data (set_bit_bv (m_lo v) n True))"
        using nb assms(2) by simp
      from get_lo_from_fixed [OF this, of v n]
      have "get (lo_from_fixed v n (set_bit_bv (m_lo v) n True)) n"
        using d by (simp add: get_set_bit_bv)
      with True b nb show ?thesis
        by (intro exI [of _ n]) simp
    next
      case b: False
      from get_lo_from_fixed [OF assms(2), of v n]
      have "\<not> get (lo_from_fixed v (bw v) (m_lo v)) n"
        using nb b by simp
      with True b nb show ?thesis
        by (intro exI [of _ n]) simp
    qed
  qed
qed

lemma tighten_lo_result_agrees:
  assumes "n \<le> bw v" "bw v \<le> 32 * length (b_data (m_lo v))"
    and "\<forall>j. n \<le> j \<and> j < bw v \<and> get (fixed v) j \<longrightarrow> get (m_lo v) j = get (m_bits v) j"
    and "i < bw v" "get (fixed v) i"
  shows "get (m_lo (tighten_lo v n)) i = get (m_bits v) i"
  using assms(1,3)
proof (induction n)
  case 0
  then show ?case using assms(4,5) by simp
next
  case (Suc n)
  have nb: "n < bw v" using Suc.prems(1) by simp
  have d: "n div 32 < length (b_data (m_lo v))"
    using nb assms(2) by (intro div32_less) simp
  show ?case
  proof (cases "get (fixed v) n \<and> get (m_bits v) n \<noteq> get (m_lo v) n")
    case False
    have "\<forall>j. n \<le> j \<and> j < bw v \<and> get (fixed v) j \<longrightarrow> get (m_lo v) j = get (m_bits v) j"
    proof (intro allI impI)
      fix j assume j: "n \<le> j \<and> j < bw v \<and> get (fixed v) j"
      show "get (m_lo v) j = get (m_bits v) j"
      proof (cases "j = n")
        case True
        with False j show ?thesis by auto
      next
        case False
        with j have "Suc n \<le> j" by simp
        with j Suc.prems(2) show ?thesis by blast
      qed
    qed
    with Suc.IH nb False show ?thesis by auto
  next
    case True
    show ?thesis
    proof (cases "get (m_bits v) n")
      case b: True
      have le: "n \<le> 32 * length (b_data (set_bit_bv (m_lo v) n True))"
        using nb assms(2) by simp
      have "get (lo_from_fixed v n (set_bit_bv (m_lo v) n True)) i = get (m_bits v) i"
      proof (cases "i < n")
        case True
        then show ?thesis
          unfolding get_lo_from_fixed [OF le] using assms(5) by simp
      next
        case False
        show ?thesis
        proof (cases "i = n")
          case True
          then show ?thesis
            unfolding get_lo_from_fixed [OF le] using d b by (simp add: get_set_bit_bv)
        next
          case ne: False
          with False have "Suc n \<le> i" by simp
          with assms(4,5) Suc.prems(2) have "get (m_lo v) i = get (m_bits v) i" by blast
          with False ne show ?thesis
            unfolding get_lo_from_fixed [OF le] using d by (simp add: get_set_bit_bv)
        qed
      qed
      with True b show ?thesis by simp
    next
      case b: False
      have "get (lo_from_fixed v (bw v) (m_lo v)) i = get (m_bits v) i"
        unfolding get_lo_from_fixed [OF assms(2)] using assms(4,5) by simp
      with True b show ?thesis by simp
    qed
  qed
qed

section \<open>The fields after the intersection step\<close>

lemma set_value_lo_update [simp]: "set_value (v\<lparr>m_lo := x\<rparr>) y n = set_value v y n"
  by (simp add: set_value_def clear_overflow_bits_def)

lemma b_nw_put [simp]: "b_nw (put x i w) = b_nw x"
  by (simp add: put_def)

lemma b_nw_set_bit_bv [simp]: "b_nw (set_bit_bv x i b) = b_nw x"
  by (simp add: set_bit_bv_def Let_def)

lemma b_nw_set_value_loop [simp]: "b_nw (set_value_loop x n k) = b_nw x"
  by (induction k) simp_all

lemma b_nw_set_value [simp]: "b_nw (set_value v x n) = b_nw x"
  by (simp add: set_value_def clear_overflow_bits_def)

lemma intersect_fields:
  "m_bits (add_range_intersect v l h) = m_bits v \<and> fixed (add_range_intersect v l h) = fixed v \<and>
   nw (add_range_intersect v l h) = nw v \<and> bw (add_range_intersect v l h) = bw v \<and>
   mask_v (add_range_intersect v l h) = mask_v v \<and> eval (add_range_intersect v l h) = eval v"
  by (simp add: add_range_intersect_def Let_def split: prod.splits)

lemma intersect_hi_plain:
  "\<not> bv_eq (m_lo v) (m_hi v) \<Longrightarrow> lo v < hi v \<Longrightarrow> m_hi (add_range_intersect v l h) = m_hi v"
  by (auto simp: add_range_intersect_def Let_def split: prod.splits)

lemma intersect_hi_wrapped:
  assumes "\<not> bv_eq (m_lo v) (m_hi v)" "hi v < lo v"
  shows "m_hi (add_range_intersect v l h) =
           (if lo v < l \<or> l < hi v
            then (if (l < h \<and> h < hi v) \<or> (hi v < l \<and> (h < hi v \<or> l < h))
                  then set_value v (m_hi v) h else m_hi v)
            else (if h < hi v \<or> lo v < h then set_value v (m_hi v) h else m_hi v))"
proof -
  from assms(2) have n: "\<not> lo v < hi v" by simp
  show ?thesis
    unfolding add_range_intersect_def Let_def using assms n by auto
qed

lemma tighten_range_hi: "m_hi (tighten_range v) = m_hi v \<and> nw (tighten_range v) = nw v"
  by (simp add: tighten_range_def tighten_lo_fields tighten_bits_other_fields tighten_bits_fields)

lemma dims_cong: "bw w = bw v \<Longrightarrow> nw w = nw v \<Longrightarrow> mask_v w = mask_v v \<Longrightarrow> dims w = dims v"
  by (simp add: dims_def)

lemma get_value_bits:
  "get_value x n = V \<Longrightarrow> i < 32 * n \<Longrightarrow> get x i = bit V i"
  using bit_get_value [of x n i] by auto

section \<open>Failure leaves the valuation alone\<close>

lemma in_range_eval_update [simp]: "in_range (v\<lparr>eval := e\<rparr>) x = in_range v x"
  by (simp add: in_range_def)

lemma try_set_bit_False:
  "in_range v (m_bits v) \<Longrightarrow> \<not> fst (try_set_bit v i b) \<Longrightarrow> snd (try_set_bit v i b) = v"
  by (simp add: try_set_bit_def Let_def split: if_splits)

lemma try_set_cases:
  "try_set v x = (b, v') \<Longrightarrow> (\<not> b \<longrightarrow> v' = v) \<and> m_bits v' = m_bits v"
  by (auto simp: try_set_def set_eval_def split: if_splits)

lemma try_set_False: "\<not> fst (try_set v x) \<Longrightarrow> snd (try_set v x) = v"
  by (simp add: try_set_def split: if_splits)

lemma try_set_range_False:
  "\<not> fst (try_set_range v dst l h b) \<Longrightarrow> snd (try_set_range v dst l h b) = dst"
  by (simp add: try_set_range_def split: if_splits)

lemma commit_eval_False: "\<not> fst (commit_eval v) \<Longrightarrow> snd (commit_eval v) = v"
  by (simp add: commit_eval_def split: if_splits)

lemma range_settable_numeral:
  "range_settable v i (numeral k) b =
     (if get (fixed v) i \<and> get_bit v i \<noteq> b then False
      else range_settable v (i + 1) (pred_numeral k) b)"
  by (simp add: numeral_eq_Suc)

lemma bvect_set_bw8: "bvect_set_bw 8 (bv8 x) = bv8 x"
  by (simp add: bvect_set_bw_def bv8_def reserve_def bw_words_def bw_mask_def)

lemma try_set_bit8_fixed: "try_set_bit (val8 1 2 1 0 0) 0 False = (False, val8 1 2 1 0 0)"
  by (simp add: try_set_bit_def get_bit_def eval8)

lemma try_set8_fixed: "try_set (val8 1 2 1 0 0) (bv8 4) = (False, val8 1 2 1 0 0)"
  by (simp add: try_set_def can_set8)

lemma try_set_range8_fixed:
  "try_set_range (val8 1 2 1 0 0) (bv8 6) 0 4 False = (False, bv8 6)"
  by (simp add: try_set_range_def range_settable_numeral get_bit_def eval8)

text \<open>
  Outside its asserted precondition \<open>try_set_bit\<close> does change \<open>eval\<close> on failure: the
  rollback writes \<open>!b\<close>, not the bit that was there.  In the state that \<open>add_range(4, 8)\<close>
  leaves behind from \<open>odd8\<close> (committed value 3 outside the range \<open>[5, 8)\<close>, \<open>eval = 1\<close>),
  \<open>try_set_bit(1, false)\<close> returns false with \<open>eval = 3\<close>.
\<close>

lemma try_set_bit8_out_of_range:
  "try_set_bit (val8 3 1 1 5 8) 1 False = (False, val8 3 3 1 5 8)"
  by (simp add: try_set_bit_def get_bit_def eval8)


section \<open>Reads and writes through references\<close>

lemma rd_wr: "rd a (wr d x s) = (if a = d then x else rd a s)"
  by (cases s; cases a; cases d) auto

lemma wr_wr [simp]: "wr d y (wr d x s) = wr d y s"
  by (cases s; cases d) auto

lemma wr_rd [simp]: "wr d (rd d s) s = s"
  by (cases s; cases d) auto

lemma scalars_wr [simp]:
  "bw (fst (wr d x s)) = bw (fst s)" "nw (fst (wr d x s)) = nw (fst s)"
  "mask_v (fst (wr d x s)) = mask_v (fst s)"
  "m_signed_prefix (fst (wr d x s)) = m_signed_prefix (fst s)"
  by (cases s; cases d; simp)+

lemma scalars_wr_word [simp]:
  "bw (fst (wr_word d i w s)) = bw (fst s)" "nw (fst (wr_word d i w s)) = nw (fst s)"
  "mask_v (fst (wr_word d i w s)) = mask_v (fst s)"
  "m_signed_prefix (fst (wr_word d i w s)) = m_signed_prefix (fst s)"
  by (simp_all add: wr_word_def)

lemma scalars_wr_bit [simp]:
  "bw (fst (wr_bit d i b s)) = bw (fst s)" "nw (fst (wr_bit d i b s)) = nw (fst s)"
  "mask_v (fst (wr_bit d i b s)) = mask_v (fst s)"
  "m_signed_prefix (fst (wr_bit d i b s)) = m_signed_prefix (fst s)"
  by (simp_all add: wr_bit_def)

lemma scalars_set_bw_ref [simp]:
  "bw (fst (set_bw_ref d b s)) = bw (fst s)" "nw (fst (set_bw_ref d b s)) = nw (fst s)"
  "mask_v (fst (set_bw_ref d b s)) = mask_v (fst s)"
  "m_signed_prefix (fst (set_bw_ref d b s)) = m_signed_prefix (fst s)"
  by (simp_all add: set_bw_ref_def)

section \<open>Which vector a call writes\<close>

lemma only_wrote_refl [simp]: "only_wrote d s s"
  by (simp add: only_wrote_def)

lemma only_wrote_wr [simp]: "only_wrote d s (wr d x s)"
  by (simp add: only_wrote_def rd_wr)

lemma only_wrote_steps [simp]:
  "only_wrote d s (wr_word d i w s)" "only_wrote d s (wr_bit d i b s)"
  "only_wrote d s (set_bw_ref d n s)"
  by (simp_all add: wr_word_def wr_bit_def set_bw_ref_def)

lemma only_wrote_trans: "only_wrote d s s1 \<Longrightarrow> only_wrote d s1 s2 \<Longrightarrow> only_wrote d s s2"
proof -
  assume a: "only_wrote d s s1" and b: "only_wrote d s1 s2"
  from b have "s2 = wr d (rd d s2) s1" by (simp add: only_wrote_def)
  also from a have "s1 = wr d (rd d s1) s" by (simp add: only_wrote_def)
  finally have "s2 = wr d (rd d s2) s" by simp
  then show ?thesis by (simp add: only_wrote_def)
qed

lemma only_wrote_rd: "only_wrote d s s' \<Longrightarrow> a \<noteq> d \<Longrightarrow> rd a s' = rd a s"
proof -
  assume "only_wrote d s s'" and n: "a \<noteq> d"
  then have "s' = wr d (rd d s') s" by (simp add: only_wrote_def)
  then have "rd a s' = rd a (wr d (rd d s') s)" by simp
  with n show ?thesis by (simp add: rd_wr)
qed

lemma only_wrote_scalars:
  assumes "only_wrote d s s'"
  shows "bw (fst s') = bw (fst s) \<and> nw (fst s') = nw (fst s) \<and>
         mask_v (fst s') = mask_v (fst s) \<and> m_signed_prefix (fst s') = m_signed_prefix (fst s)"
proof -
  from assms have e: "s' = wr d (rd d s') s" by (simp add: only_wrote_def)
  show ?thesis by (subst e, subst (2) e, subst (3) e, subst (4) e) simp
qed

lemma only_wrote_ext: "only_wrote (Ref_ext n) s s' \<Longrightarrow> fst s' = fst s"
  by (cases s; cases s') (simp add: only_wrote_def)

lemma only_wrote_eval_bits:
  assumes "only_wrote d s s'" "d \<noteq> Ref_eval" "d \<noteq> Ref_bits"
  shows "eval (fst s') = eval (fst s) \<and> m_bits (fst s') = m_bits (fst s)"
proof -
  from only_wrote_rd [OF assms(1), of Ref_eval] only_wrote_rd [OF assms(1), of Ref_bits] assms(2,3)
  have "rd Ref_eval s' = rd Ref_eval s" "rd Ref_bits s' = rd Ref_bits s" by auto
  then show ?thesis by (cases s; cases s') simp
qed

lemma only_wrote_sign_inner: "only_wrote d s (sign_inner d sign low i s)"
proof (induction i arbitrary: s)
  case 0
  show ?case by simp
next
  case (Suc i)
  show ?case
  proof (cases "i < low")
    case True
    then show ?thesis by simp
  next
    case False
    let ?s1 = "if \<not> rd_bit Ref_fixed i s then wr_bit d i (\<not> sign) s else s"
    have "only_wrote d s ?s1" by simp
    from only_wrote_trans [OF this Suc [of ?s1]] False show ?thesis by simp
  qed
qed

lemma only_wrote_sign_outer: "only_wrote d s (sign_outer d sign low i s)"
proof (induction i arbitrary: s)
  case 0
  show ?case by simp
next
  case (Suc i)
  have "only_wrote d s (wr_bit d i sign s)" by simp
  from only_wrote_trans [OF this Suc [of "wr_bit d i sign s"]] Suc [of s]
  show ?case by (simp add: only_wrote_sign_inner)
qed

lemma only_wrote_repair_sign_bits:
  "repair_sign_bits d s = Some s' \<Longrightarrow> only_wrote d s s'"
  by (auto simp: repair_sign_bits_def only_wrote_sign_outer split: if_splits)

lemma only_wrote_clear_down: "only_wrote d s (clear_down c d i s)"
proof (induction i arbitrary: s)
  case 0
  show ?case by simp
next
  case (Suc i)
  let ?s1 = "if \<not> rd_bit Ref_fixed i s \<and> rd_bit d i s then wr_bit d i False s else s"
  have "only_wrote d s ?s1" by simp
  from only_wrote_trans [OF this Suc [of ?s1]] show ?case by simp
qed

lemma only_wrote_set_up: "only_wrote d s (set_up c d i k s)"
proof (induction k arbitrary: i s)
  case 0
  show ?case by simp
next
  case (Suc k)
  let ?s1 = "if \<not> rd_bit Ref_fixed i s \<and> \<not> rd_bit d i s then wr_bit d i True s else s"
  have "only_wrote d s ?s1" by simp
  from only_wrote_trans [OF this Suc [of ?s1 "Suc i"]] show ?case by simp
qed

lemma only_wrote_repair_init: "only_wrote d s (repair_init d n s)"
proof (induction n)
  case 0
  show ?case by simp
next
  case (Suc n)
  show ?case
    unfolding repair_init.simps Let_def
    by (rule only_wrote_trans [OF Suc]) simp
qed

lemma only_wrote_set_ref: "only_wrote d s (set_ref d src n s)"
proof (induction n)
  case 0
  show ?case by simp
next
  case (Suc n)
  show ?case
    unfolding set_ref.simps Let_def
    by (rule only_wrote_trans [OF Suc]) simp
qed

lemma only_wrote_set_repair:
  assumes "set_repair td d s = Some (False, s')"
  shows "only_wrote d s s'"
proof -
  let ?s0 = "repair_init d (nw (fst s)) s"
  from assms obtain s1 where 1: "repair_sign_bits d ?s0 = Some s1"
    by (auto simp: set_repair_def split: option.splits)
  have w1: "only_wrote d s s1"
    by (rule only_wrote_trans [OF only_wrote_repair_init only_wrote_repair_sign_bits [OF 1]])
  let ?s2 = "set_bw_ref d (bw (fst s1)) s1"
  let ?s3 = "if bv_lt (rd Ref_lo ?s2) (rd Ref_hi ?s2) then
               set_up (\<lambda>t. bv_lt (rd d t) (rd Ref_lo t) \<and> \<not> in_range (fst t) (rd d t)) d 0 (bw (fst ?s2))
                 (clear_down (\<lambda>t. bv_le (rd Ref_hi t) (rd d t) \<and> \<not> in_range (fst t) (rd d t)) d (bw (fst ?s2)) ?s2)
             else
               clear_down (\<lambda>t. \<not> in_range (fst t) (rd d t)) d (bw (fst ?s2))
                 (set_up (\<lambda>t. \<not> in_range (fst t) (rd d t)) d 0 (bw (fst ?s2)) ?s2)"
  from assms 1 obtain s4 where 4: "repair_sign_bits d ?s3 = Some s4"
    and r: "s' = set_bw_ref d 0 s4"
    by (auto simp: set_repair_def Let_def split: option.splits if_splits)
  have w2: "only_wrote d s1 ?s2" by simp
  have w3: "only_wrote d ?s2 ?s3"
    by (auto intro: only_wrote_trans [OF only_wrote_clear_down only_wrote_set_up]
        only_wrote_trans [OF only_wrote_set_up only_wrote_clear_down])
  have w4: "only_wrote d ?s3 s4"
    by (rule only_wrote_repair_sign_bits [OF 4])
  have w5: "only_wrote d s4 s'"
    unfolding r by simp
  from w1 w2 w3 w4 w5 show ?thesis
    by (blast intro: only_wrote_trans)
qed

lemma only_wrote_sub1_loop: "only_wrote d s (sub1_loop_ref d i k s)"
proof (induction k arbitrary: i s)
  case 0
  show ?case by simp
next
  case (Suc k)
  have "only_wrote d s (wr_bit d i True s)" by simp
  from only_wrote_trans [OF this Suc [of "wr_bit d i True s" "Suc i"]] show ?case by simp
qed

lemma only_wrote_sub1: "only_wrote d s (sub1_ref d s)"
  by (simp add: sub1_ref_def only_wrote_sub1_loop)

lemma only_wrote_round_up: "only_wrote d s (snd (round_up_ref d s))"
  by (simp add: round_up_ref_def only_wrote_set_ref)

lemma only_wrote_round_down: "only_wrote d s (snd (round_down_ref d s))"
  by (auto simp: round_down_ref_def intro: only_wrote_trans [OF only_wrote_set_ref only_wrote_sub1])

lemma only_wrote_at_most_init: "only_wrote d s (at_most_init_ref src d n s)"
proof (induction n)
  case 0
  show ?case by simp
next
  case (Suc n)
  show ?case
    unfolding at_most_init_ref.simps Let_def
    by (rule only_wrote_trans [OF Suc]) simp
qed

lemma only_wrote_at_most_fill: "only_wrote d s (at_most_fill_ref d j s)"
proof (induction j arbitrary: s)
  case 0
  show ?case by simp
next
  case (Suc j)
  show ?case
    unfolding at_most_fill_ref.simps
    by (rule only_wrote_trans [OF _ Suc]) simp
qed

lemma only_wrote_at_most_scan: "only_wrote d s (at_most_scan_ref src d i s)"
proof (induction i)
  case 0
  show ?case by simp
next
  case (Suc i)
  show ?case
    unfolding at_most_scan_ref.simps Let_def
    using Suc by (auto intro: only_wrote_trans [OF _ only_wrote_at_most_fill])
qed

lemma only_wrote_get_at_most: "only_wrote d s (snd (get_at_most_ref src d s))"
  unfolding get_at_most_ref_def
  by (blast intro: only_wrote_trans only_wrote_at_most_init only_wrote_at_most_scan
      only_wrote_round_down)

lemma only_wrote_at_least_init: "only_wrote d s (at_least_init_ref src d n s)"
proof (induction n)
  case 0
  show ?case by simp
next
  case (Suc n)
  show ?case
    unfolding at_least_init_ref.simps Let_def
    by (rule only_wrote_trans [OF Suc]) simp
qed

lemma only_wrote_at_least_clear: "only_wrote d s (at_least_clear_ref d j s)"
proof (induction j arbitrary: s)
  case 0
  show ?case by simp
next
  case (Suc j)
  show ?case
    unfolding at_least_clear_ref.simps
    by (rule only_wrote_trans [OF _ Suc]) simp
qed

lemma only_wrote_at_least_scan: "only_wrote d s (at_least_scan_ref src d i s)"
proof (induction i)
  case 0
  show ?case by simp
next
  case (Suc i)
  show ?case
    unfolding at_least_scan_ref.simps Let_def
    using Suc by (auto intro: only_wrote_trans [OF _ only_wrote_at_least_clear])
qed

lemma only_wrote_get_at_least: "only_wrote d s (snd (get_at_least_ref src d s))"
  unfolding get_at_least_ref_def
  by (blast intro: only_wrote_trans only_wrote_at_least_init only_wrote_at_least_scan
      only_wrote_round_up)

lemma try_set_ref_False: "try_set_ref src s = (False, s') \<Longrightarrow> s' = s"
  by (simp add: try_set_ref_def split: if_splits)

lemma only_wrote_try_set_False: "try_set_ref src s = (False, s') \<Longrightarrow> only_wrote d s s'"
  by (simp add: try_set_ref_def split: if_splits)

lemma only_wrote_random_above_loop: "only_wrote d s (fst (random_above_loop d i k r s))"
proof (induction k arbitrary: i r s)
  case 0
  show ?case by simp
next
  case (Suc k)
  obtain x r1 where x: "random_bits r = (x, r1)" by (cases "random_bits r")
  let ?s1 = "wr_word d i (rd_word d i s OR (x AND NOT (rd_word Ref_fixed i s))) s"
  have "only_wrote d s ?s1" by simp
  from only_wrote_trans [OF this Suc [of ?s1 "Suc i" r1]] x show ?case by simp
qed

lemma only_wrote_set_random_above:
  "set_random_above d r s = Some (s', r') \<Longrightarrow> only_wrote d s s'"
proof -
  assume a: "set_random_above d r s = Some (s', r')"
  obtain s1 r1 where l: "random_above_loop d 0 (nw (fst s)) r s = (s1, r1)"
    by (cases "random_above_loop d 0 (nw (fst s)) r s")
  from only_wrote_random_above_loop [of d s 0 "nw (fst s)" r] l have 1: "only_wrote d s s1"
    by simp
  from a l have "repair_sign_bits d s1 = Some s'"
    by (simp add: set_random_above_def split: option.splits)
  from only_wrote_trans [OF 1 only_wrote_repair_sign_bits [OF this]] show ?thesis .
qed

lemma only_wrote_randomize_below: "only_wrote d s (fst (randomize_below d i k r s))"
proof (induction k arbitrary: i r s)
  case 0
  show ?case by simp
next
  case (Suc k)
  obtain x r1 where x: "rnd r = (x, r1)" by (cases "rnd r")
  let ?s1 = "wr_bit d i (x mod 2 = 0) s"
  have "only_wrote d s ?s1" by simp
  from only_wrote_trans [OF this Suc [of ?s1 "Suc i" r1]] Suc [of s "Suc i" r] x
  show ?case by simp
qed

lemma only_wrote_set_random_below:
  "set_random_below d r s = Some (s', r') \<Longrightarrow> only_wrote d s s'"
proof -
  assume a: "set_random_below d r s = Some (s', r')"
  show ?thesis
  proof (cases "is_zero (fst s) (rd d s)")
    case True
    with a show ?thesis by (simp add: set_random_below_def)
  next
    case False
    obtain idx r1 where p: "pick_bit d s 0 (bw (fst s)) 0 None r = (idx, r1)"
      by (cases "pick_bit d s 0 (bw (fst s)) 0 None r")
    show ?thesis
    proof (cases idx)
      case None
      with a False p show ?thesis by (simp add: set_random_below_def)
    next
      case (Some ix)
      obtain s1 r2 where l: "randomize_below d 0 ix r1 (wr_bit d ix False s) = (s1, r2)"
        by (cases "randomize_below d 0 ix r1 (wr_bit d ix False s)")
      have "only_wrote d s (wr_bit d ix False s)" by simp
      from only_wrote_trans [OF this only_wrote_randomize_below [of d _ 0 ix r1]] l
      have 1: "only_wrote d s s1" by simp
      from a False p Some l have "repair_sign_bits d s1 = Some s'"
        by (simp add: set_random_below_def split: option.splits)
      from only_wrote_trans [OF 1 only_wrote_repair_sign_bits [OF this]] show ?thesis .
    qed
  qed
qed

lemma only_wrote_round_down_pred:
  "round_down_pred d f s = Some s' \<Longrightarrow> only_wrote d s s'"
  unfolding round_down_pred_def
  by (blast intro: only_wrote_trans only_wrote_clear_down only_wrote_repair_sign_bits)

lemma only_wrote_round_up_pred:
  "round_up_pred d f s = Some s' \<Longrightarrow> only_wrote d s s'"
  unfolding round_up_pred_def
  by (blast intro: only_wrote_trans only_wrote_set_up only_wrote_repair_sign_bits)

lemma get_at_most_ref_pair:
  "get_at_most_ref src d s = (ok, s') \<Longrightarrow> only_wrote d s s'"
  using only_wrote_get_at_most [of d s src] by simp

lemma get_at_least_ref_pair:
  "get_at_least_ref src d s = (ok, s') \<Longrightarrow> only_wrote d s s'"
  using only_wrote_get_at_least [of d s src] by simp

lemma only_wrote_set_random_at_most:
  assumes "set_random_at_most src tmp r s = Some (False, s', r')"
  shows "only_wrote tmp s s'"
  using assms unfolding set_random_at_most_def Let_def
  by (auto split: prod.splits if_splits option.splits
      dest!: get_at_most_ref_pair try_set_ref_False only_wrote_set_random_below
      intro: only_wrote_trans)

lemma only_wrote_set_random_at_least:
  assumes "set_random_at_least src tmp r s = Some (False, s', r')"
  shows "only_wrote tmp s s'"
  using assms unfolding set_random_at_least_def Let_def
  by (auto split: prod.splits if_splits option.splits
      dest!: get_at_least_ref_pair try_set_ref_False only_wrote_set_random_above
      intro: only_wrote_trans)

lemma only_wrote_set_random_in_range:
  assumes "set_random_in_range l h tmp r s = Some (False, s', r')"
  shows "only_wrote tmp s s'"
  using assms unfolding set_random_in_range_def Let_def
  by (auto split: prod.splits if_splits option.splits
      dest!: get_at_most_ref_pair get_at_least_ref_pair try_set_ref_False
        only_wrote_set_random_below only_wrote_set_random_above
        only_wrote_round_down_pred only_wrote_round_up_pred
      intro: only_wrote_trans)

section \<open>The operations return when the sign prefix is shorter or longer than the vector\<close>

lemma repair_sign_bits_None:
  "m_signed_prefix (fst s) \<noteq> bw (fst s) \<Longrightarrow> (repair_sign_bits d s = None) = False"
  by (simp add: repair_sign_bits_def)

lemma only_wrote_prefix:
  "only_wrote d s s' \<Longrightarrow>
   (m_signed_prefix (fst s') \<noteq> bw (fst s')) = (m_signed_prefix (fst s) \<noteq> bw (fst s))"
  using only_wrote_scalars [of d s s'] by simp

lemma only_wrote_set_eval: "only_wrote Ref_eval s (set_eval_ref src s)"
proof -
  have c: "only_wrote Ref_eval s (copy_down_ref Ref_eval src n s)" for n s
  proof (induction n arbitrary: s)
    case 0
    show ?case by simp
  next
    case (Suc n)
    show ?case
      unfolding copy_down_ref.simps
      by (rule only_wrote_trans [OF _ Suc]) simp
  qed
  show ?thesis
    unfolding set_eval_ref_def Let_def
    by (rule only_wrote_trans [OF c [of s "nw (fst s)"]]) simp
qed

lemma try_set_ref_prefix:
  "try_set_ref src s = (b, s') \<Longrightarrow>
   (m_signed_prefix (fst s') \<noteq> bw (fst s')) = (m_signed_prefix (fst s) \<noteq> bw (fst s))"
  using only_wrote_prefix [OF only_wrote_set_eval [of s src]]
  by (auto simp: try_set_ref_def split: if_splits)

lemma set_repair_None:
  assumes p: "m_signed_prefix (fst s) \<noteq> bw (fst s)"
  shows "(set_repair td d s = None) = False"
proof -
  let ?s0 = "repair_init d (nw (fst s)) s"
  have p0: "m_signed_prefix (fst ?s0) \<noteq> bw (fst ?s0)"
    using only_wrote_prefix [OF only_wrote_repair_init [of d s "nw (fst s)"]] p by simp
  then obtain s1 where 1: "repair_sign_bits d ?s0 = Some s1"
    using repair_sign_bits_None [OF p0, of d] by auto
  have p1: "m_signed_prefix (fst s1) \<noteq> bw (fst s1)"
    using only_wrote_prefix [OF only_wrote_repair_sign_bits [OF 1]] p0 by simp
  define s2 where "s2 = set_bw_ref d (bw (fst s1)) s1"
  define s3 where "s3 = (if bv_lt (rd Ref_lo s2) (rd Ref_hi s2) then
               set_up (\<lambda>t. bv_lt (rd d t) (rd Ref_lo t) \<and> \<not> in_range (fst t) (rd d t)) d 0 (bw (fst s2))
                 (clear_down (\<lambda>t. bv_le (rd Ref_hi t) (rd d t) \<and> \<not> in_range (fst t) (rd d t)) d (bw (fst s2)) s2)
             else
               clear_down (\<lambda>t. \<not> in_range (fst t) (rd d t)) d (bw (fst s2))
                 (set_up (\<lambda>t. \<not> in_range (fst t) (rd d t)) d 0 (bw (fst s2)) s2))"
  have "only_wrote d s2 s3"
    unfolding s3_def
    by (auto intro: only_wrote_trans [OF only_wrote_clear_down only_wrote_set_up]
        only_wrote_trans [OF only_wrote_set_up only_wrote_clear_down])
  moreover have "only_wrote d s1 s2"
    unfolding s2_def by simp
  ultimately have "only_wrote d s1 s3"
    by (rule only_wrote_trans [rotated])
  from only_wrote_prefix [OF this] p1
  have p3: "m_signed_prefix (fst s3) \<noteq> bw (fst s3)" by simp
  then obtain s4 where 4: "repair_sign_bits d s3 = Some s4"
    using repair_sign_bits_None [OF p3, of d] by auto
  show ?thesis
  proof (cases "in_range (fst s1) (rd d s1)")
    case True
    then show ?thesis by (auto simp: set_repair_def 1)
  next
    case False
    then have "set_repair td d s =
        (case repair_sign_bits d s3 of
           None \<Rightarrow> None
         | Some s4 \<Rightarrow>
             if in_range (fst s4) (rd d s4)
             then Some (True, set_bw_ref d 0 (set_ref Ref_eval d (nw (fst s4)) s4))
             else Some (False, set_bw_ref d 0 s4))"
      by (simp add: set_repair_def 1 Let_def s3_def s2_def)
    then show ?thesis by (auto simp: 4)
  qed
qed

lemma set_random_below_None:
  assumes p: "m_signed_prefix (fst s) \<noteq> bw (fst s)"
  shows "(set_random_below d r s = None) = False"
proof -
  have "False" if n: "set_random_below d r s = None"
  proof -
    from n obtain idx r1 ix where i: "pick_bit d s 0 (bw (fst s)) 0 None r = (idx, r1)" "idx = Some ix"
      by (auto simp: set_random_below_def split: if_splits prod.splits option.splits)
    obtain s1 r2 where l: "randomize_below d 0 ix r1 (wr_bit d ix False s) = (s1, r2)"
      by (cases "randomize_below d 0 ix r1 (wr_bit d ix False s)")
    have "only_wrote d s (wr_bit d ix False s)" by simp
    from only_wrote_trans [OF this only_wrote_randomize_below [of d _ 0 ix r1]] l
    have "only_wrote d s s1" by simp
    from only_wrote_prefix [OF this] p have "m_signed_prefix (fst s1) \<noteq> bw (fst s1)" by simp
    from repair_sign_bits_None [OF this, of d] n i l show False
      by (simp add: set_random_below_def split: if_splits option.splits)
  qed
  then show ?thesis by blast
qed

lemma set_random_above_None:
  assumes p: "m_signed_prefix (fst s) \<noteq> bw (fst s)"
  shows "(set_random_above d r s = None) = False"
proof -
  obtain s1 r1 where l: "random_above_loop d 0 (nw (fst s)) r s = (s1, r1)"
    by (cases "random_above_loop d 0 (nw (fst s)) r s")
  from only_wrote_random_above_loop [of d s 0 "nw (fst s)" r] l have "only_wrote d s s1"
    by simp
  from only_wrote_prefix [OF this] p have "m_signed_prefix (fst s1) \<noteq> bw (fst s1)" by simp
  from repair_sign_bits_None [OF this, of d] l show ?thesis
    by (simp add: set_random_above_def split: option.splits)
qed

lemma round_pred_None:
  assumes p: "m_signed_prefix (fst s) \<noteq> bw (fst s)"
  shows "(round_down_pred d f s = None) = False" "(round_up_pred d f s = None) = False"
proof -
  have "m_signed_prefix (fst (clear_down c d i s)) \<noteq> bw (fst (clear_down c d i s))" for c i
    using only_wrote_prefix [OF only_wrote_clear_down [of d s c i]] p by simp
  then show "(round_down_pred d f s = None) = False"
    by (simp add: round_down_pred_def repair_sign_bits_None)
  have "m_signed_prefix (fst (set_up c d i k s)) \<noteq> bw (fst (set_up c d i k s))" for c i k
    using only_wrote_prefix [OF only_wrote_set_up [of d s c i k]] p by simp
  then show "(round_up_pred d f s = None) = False"
    by (simp add: round_up_pred_def repair_sign_bits_None)
qed

lemma get_at_most_ref_prefix:
  "get_at_most_ref src d s = (ok, s') \<Longrightarrow>
   (m_signed_prefix (fst s') \<noteq> bw (fst s')) = (m_signed_prefix (fst s) \<noteq> bw (fst s))"
  by (rule only_wrote_prefix) (rule get_at_most_ref_pair)

lemma get_at_least_ref_prefix:
  "get_at_least_ref src d s = (ok, s') \<Longrightarrow>
   (m_signed_prefix (fst s') \<noteq> bw (fst s')) = (m_signed_prefix (fst s) \<noteq> bw (fst s))"
  by (rule only_wrote_prefix) (rule get_at_least_ref_pair)

lemma set_random_below_prefix:
  "set_random_below d r s = Some (s', r') \<Longrightarrow>
   (m_signed_prefix (fst s') \<noteq> bw (fst s')) = (m_signed_prefix (fst s) \<noteq> bw (fst s))"
  by (rule only_wrote_prefix) (rule only_wrote_set_random_below)

lemma set_random_above_prefix:
  "set_random_above d r s = Some (s', r') \<Longrightarrow>
   (m_signed_prefix (fst s') \<noteq> bw (fst s')) = (m_signed_prefix (fst s) \<noteq> bw (fst s))"
  by (rule only_wrote_prefix) (rule only_wrote_set_random_above)

lemma set_random_at_most_None:
  assumes p: "m_signed_prefix (fst s) \<noteq> bw (fst s)"
  shows "(set_random_at_most src tmp r s = None) = False"
proof -
  obtain ok s1 where g: "get_at_most_ref src tmp s = (ok, s1)"
    by (cases "get_at_most_ref src tmp s")
  from get_at_most_ref_prefix [OF g] p have p1: "m_signed_prefix (fst s1) \<noteq> bw (fst s1)"
    by simp
  have "False" if n: "set_random_at_most src tmp r s = None"
    using n unfolding set_random_at_most_def Let_def g
    by (simp add: set_random_below_None [OF p1] split: option.splits if_splits prod.splits)
  then show ?thesis by blast
qed

lemma set_random_at_least_None:
  assumes p: "m_signed_prefix (fst s) \<noteq> bw (fst s)"
  shows "(set_random_at_least src tmp r s = None) = False"
proof -
  obtain ok s1 where g: "get_at_least_ref src tmp s = (ok, s1)"
    by (cases "get_at_least_ref src tmp s")
  from get_at_least_ref_prefix [OF g] p have p1: "m_signed_prefix (fst s1) \<noteq> bw (fst s1)"
    by simp
  have "False" if n: "set_random_at_least src tmp r s = None"
    using n unfolding set_random_at_least_def Let_def g
    by (simp add: set_random_above_None [OF p1] split: option.splits if_splits prod.splits)
  then show ?thesis by blast
qed

lemma set_random_in_range_None:
  assumes p: "m_signed_prefix (fst s) \<noteq> bw (fst s)"
  shows "(set_random_in_range l h tmp r s = None) = False"
proof -
  obtain ok s1 where g: "get_at_least_ref l tmp s = (ok, s1)"
    by (cases "get_at_least_ref l tmp s")
  obtain ok' s1' where g': "get_at_most_ref h tmp s = (ok', s1')"
    by (cases "get_at_most_ref h tmp s")
  from get_at_least_ref_prefix [OF g] p have p1: "m_signed_prefix (fst s1) \<noteq> bw (fst s1)"
    by simp
  from get_at_most_ref_prefix [OF g'] p have p1': "m_signed_prefix (fst s1') \<noteq> bw (fst s1')"
    by simp
  have a: "(round_down_pred tmp f s2 = None) = False"
    if "set_random_above tmp r1 s1 = Some (s2, r2)" for f s2 r1 r2
    using round_pred_None(1) [of s2] set_random_above_prefix [OF that] p1 by simp
  have b: "(round_up_pred tmp f s2 = None) = False"
    if "set_random_below tmp r1 s1' = Some (s2, r2)" for f s2 r1 r2
    using round_pred_None(2) [of s2] set_random_below_prefix [OF that] p1' by simp
  have "False" if n: "set_random_in_range l h tmp r s = None"
    using n unfolding set_random_in_range_def Let_def g g'
    by (simp add: set_random_above_None [OF p1] set_random_below_None [OF p1'] a b
        split: option.splits if_splits prod.splits)
  then show ?thesis by blast
qed

section \<open>The bounded search through references and on values\<close>

text \<open>
  When \<open>src\<close> and \<open>dst\<close> are two different vectors of the caller, the bounded search
  through references computes what \<open>get_at_most\<close> and \<open>get_at_least\<close> compute on the
  contents of the two vectors, and stores the result in \<open>dst\<close>.
\<close>

lemma set_ref_ext:
  "set_ref (Ref_ext b) Ref_lo n (v, e) = (v, e(b := copy_words n (m_lo v) (e b)))"
  "set_ref (Ref_ext b) Ref_hi n (v, e) = (v, e(b := copy_words n (m_hi v) (e b)))"
  by (induction n) (simp_all add: Let_def rd_word_def wr_word_def)

lemma sub1_loop_ref_ext:
  "sub1_loop_ref (Ref_ext b) i k (v, e) = (v, e(b := sub1_loop (e b) i k))"
  by (induction k arbitrary: i e) (simp_all add: rd_bit_def wr_bit_def)

lemma round_down_ref_ext:
  "round_down_ref (Ref_ext b) (v, e) =
     (fst (round_down v (e b)), (v, e(b := snd (round_down v (e b)))))"
  by (simp add: round_down_ref_def round_down_def sub1_ref_def sub1_def set_bv_def
      set_ref_ext sub1_loop_ref_ext)

lemma round_up_ref_ext:
  "round_up_ref (Ref_ext b) (v, e) =
     (fst (round_up v (e b)), (v, e(b := snd (round_up v (e b)))))"
  by (simp add: round_up_ref_def round_up_def set_bv_def set_ref_ext)

lemma at_most_init_ref_ext:
  "a \<noteq> b \<Longrightarrow> at_most_init_ref (Ref_ext a) (Ref_ext b) n (v, e) =
     (v, e(b := at_most_init v (e a) n (e b)))"
  by (induction n) (simp_all add: Let_def rd_word_def wr_word_def)

lemma at_most_fill_ref_ext:
  "at_most_fill_ref (Ref_ext b) j (v, e) = (v, e(b := at_most_fill v j (e b)))"
  by (induction j arbitrary: e) (simp_all add: rd_word_def wr_word_def)

lemma at_most_scan_ref_ext:
  "a \<noteq> b \<Longrightarrow> at_most_scan_ref (Ref_ext a) (Ref_ext b) i (v, e) =
     (v, e(b := at_most_scan v (e a) i (e b)))"
  by (induction i) (simp_all add: Let_def rd_word_def wr_word_def at_most_fill_ref_ext)

lemma get_at_most_ref_ext:
  "a \<noteq> b \<Longrightarrow> get_at_most_ref (Ref_ext a) (Ref_ext b) (v, e) =
     (fst (get_at_most v (e a) (e b)), (v, e(b := snd (get_at_most v (e a) (e b)))))"
  by (simp add: get_at_most_ref_def get_at_most_def at_most_init_ref_ext at_most_scan_ref_ext
      round_down_ref_ext)

lemma at_least_init_ref_ext:
  "a \<noteq> b \<Longrightarrow> at_least_init_ref (Ref_ext a) (Ref_ext b) n (v, e) =
     (v, e(b := at_least_init v (e a) n (e b)))"
  by (induction n) (simp_all add: Let_def rd_word_def wr_word_def)

lemma at_least_clear_ref_ext:
  "at_least_clear_ref (Ref_ext b) j (v, e) = (v, e(b := at_least_clear v j (e b)))"
  by (induction j arbitrary: e) (simp_all add: rd_word_def wr_word_def)

lemma at_least_scan_ref_ext:
  "a \<noteq> b \<Longrightarrow> at_least_scan_ref (Ref_ext a) (Ref_ext b) i (v, e) =
     (v, e(b := at_least_scan v (e a) i (e b)))"
  by (induction i) (simp_all add: Let_def rd_word_def wr_word_def at_least_clear_ref_ext)

lemma get_at_least_ref_ext:
  "a \<noteq> b \<Longrightarrow> get_at_least_ref (Ref_ext a) (Ref_ext b) (v, e) =
     (fst (get_at_least v (e a) (e b)), (v, e(b := snd (get_at_least v (e a) (e b)))))"
  by (simp add: get_at_least_ref_def get_at_least_def at_least_init_ref_ext
      at_least_scan_ref_ext round_up_ref_ext)

lemma copy_down_ref_ext:
  "copy_down_ref Ref_eval (Ref_ext a) n (v, e) = (v\<lparr>eval := copy_words_down n (e a) (eval v)\<rparr>, e)"
  by (induction n arbitrary: v) (simp_all add: rd_word_def wr_word_def)

lemma try_set_ref_ext:
  "try_set_ref (Ref_ext a) (v, e) = (fst (try_set v (e a)), (snd (try_set v (e a)), e))"
  by (simp add: try_set_ref_def try_set_def set_eval_ref_def set_eval_def copy_down_ref_ext
      clear_overflow_bits_def)

section \<open>Evaluation of the operations that write through references\<close>

lemma clear_down_numeral:
  "clear_down c d (numeral k) s =
     (if c s
      then clear_down c d (pred_numeral k)
             (if \<not> rd_bit Ref_fixed (pred_numeral k) s \<and> rd_bit d (pred_numeral k) s
              then wr_bit d (pred_numeral k) False s else s)
      else s)"
  by (simp add: numeral_eq_Suc)

lemma set_up_numeral:
  "set_up c d i (numeral k) s =
     (if c s
      then set_up c d (i + 1) (pred_numeral k)
             (if \<not> rd_bit Ref_fixed i s \<and> \<not> rd_bit d i s then wr_bit d i True s else s)
      else s)"
  by (simp add: numeral_eq_Suc)

lemmas ref_defs = rd_word_def wr_word_def rd_bit_def wr_bit_def set_bw_ref_def

lemma repair_sign_bits8: "repair_sign_bits d (val8 b e f l h, x) = Some (val8 b e f l h, x)"
  by (simp add: repair_sign_bits_def eval8)

text \<open>
  \<open>set_repair\<close> with the work vector naming \<open>eval\<close>.  The committed value is 4, the range
  \<open>[4, 5)\<close>, no bit below 8 is fixed and \<open>eval = 8\<close>.  The first loop clears bit 3, the
  second sets bits 0 to 2, the result 7 is not in range: the call returns false, and \<open>eval\<close>
  holds 7 with its size field set to 0 by the closing \<open>dst.set_bw(0)\<close>.
\<close>

lemma set_repair8_alias:
  "set_repair True Ref_eval (val8 4 8 0 4 5, x) =
     Some (False, ((val8 4 8 0 4 5)\<lparr>eval := bvect_set_bw 0 (bv8 7)\<rparr>, x))"
proof -
  let ?v = "\<lambda>e. (val8 4 e 0 4 5, x)"
  have i: "repair_init Ref_eval 1 (?v 8) = ?v 8"
    by (simp add: ref_defs eval8)
  have d: "clear_down (\<lambda>t. bv_le (rd Ref_hi t) (rd Ref_eval t) \<and> \<not> in_range (fst t) (rd Ref_eval t))
             Ref_eval 8 (?v 8) = ?v 0"
    by (simp add: clear_down_numeral ref_defs eval8)
  have u: "set_up (\<lambda>t. bv_lt (rd Ref_eval t) (rd Ref_lo t) \<and> \<not> in_range (fst t) (rd Ref_eval t))
             Ref_eval 0 8 (?v 0) = ?v 7"
    by (simp add: set_up_numeral ref_defs eval8)
  have b: "set_bw_ref Ref_eval 8 (?v 8) = ?v 8"
    by (simp add: ref_defs bvect_set_bw8 eval8)
  have z: "set_bw_ref Ref_eval 0 (?v 7) = ((val8 4 8 0 4 5)\<lparr>eval := bvect_set_bw 0 (bv8 7)\<rparr>, x)"
    by (simp add: ref_defs val8_def)
  show ?thesis
    unfolding set_repair_def fst_conv val8_fields(6,7) i repair_sign_bits8
    by (simp add: b d u z repair_sign_bits8 eval8 del: in_range8) (simp add: eval8)
qed


text \<open>
  The same call with a vector of the caller holding 8: it returns false, \<open>eval\<close> is
  unchanged and the caller's vector holds 7.  With the range \<open>[3, 9)\<close> and the caller's
  vector holding 200 the call succeeds and copies 8 into \<open>eval\<close>.
\<close>

lemma set_repair8_fails:
  "set_repair True (Ref_ext 0) (val8 4 4 0 4 5, \<lambda>n. bv8 8) =
     Some (False, (val8 4 4 0 4 5, (\<lambda>n. bv8 8)(0 := bvect_set_bw 0 (bv8 7))))"
proof -
  let ?s = "\<lambda>w. (val8 4 4 0 4 5, (\<lambda>n. bv8 8)(0 := bv8 w))"
  have s8: "(val8 4 4 0 4 5, \<lambda>n. bv8 8) = ?s 8"
    by (simp add: fun_eq_iff)
  have i: "repair_init (Ref_ext 0) 1 (?s 8) = ?s 8"
    by (simp add: ref_defs eval8)
  have d: "clear_down (\<lambda>t. bv_le (rd Ref_hi t) (rd (Ref_ext 0) t) \<and>
                             \<not> in_range (fst t) (rd (Ref_ext 0) t))
             (Ref_ext 0) 8 (?s 8) = ?s 0"
    by (simp add: clear_down_numeral ref_defs eval8)
  have u: "set_up (\<lambda>t. bv_lt (rd (Ref_ext 0) t) (rd Ref_lo t) \<and>
                         \<not> in_range (fst t) (rd (Ref_ext 0) t))
             (Ref_ext 0) 0 8 (?s 0) = ?s 7"
    by (simp add: set_up_numeral ref_defs eval8)
  have b: "set_bw_ref (Ref_ext 0) 8 (?s 8) = ?s 8"
    by (simp add: ref_defs bvect_set_bw8 eval8)
  have z: "set_bw_ref (Ref_ext 0) 0 (?s 7) =
             (val8 4 4 0 4 5, (\<lambda>n. bv8 8)(0 := bvect_set_bw 0 (bv8 7)))"
    by (simp add: ref_defs)
  show ?thesis
    unfolding s8 set_repair_def fst_conv val8_fields(6,7) i repair_sign_bits8
    by (simp add: b d u z repair_sign_bits8 eval8 del: in_range8) (simp add: eval8)
qed

lemma set_repair8_succeeds:
  "set_repair True (Ref_ext 0) (val8 4 4 0 3 9, \<lambda>n. bv8 200) =
     Some (True, (val8 4 8 0 3 9, (\<lambda>n. bv8 200)(0 := bvect_set_bw 0 (bv8 8))))"
proof -
  let ?s = "\<lambda>w. (val8 4 4 0 3 9, (\<lambda>n. bv8 200)(0 := bv8 w))"
  have s8: "(val8 4 4 0 3 9, \<lambda>n. bv8 200) = ?s 200"
    by (simp add: fun_eq_iff)
  have i: "repair_init (Ref_ext 0) 1 (?s 200) = ?s 200"
    by (simp add: ref_defs eval8)
  have d: "clear_down (\<lambda>t. bv_le (rd Ref_hi t) (rd (Ref_ext 0) t) \<and>
                             \<not> in_range (fst t) (rd (Ref_ext 0) t))
             (Ref_ext 0) 8 (?s 200) = ?s 8"
    by (simp add: clear_down_numeral ref_defs eval8)
  have u: "set_up (\<lambda>t. bv_lt (rd (Ref_ext 0) t) (rd Ref_lo t) \<and>
                         \<not> in_range (fst t) (rd (Ref_ext 0) t))
             (Ref_ext 0) 0 8 (?s 8) = ?s 8"
    by (simp add: set_up_numeral ref_defs eval8)
  have b: "set_bw_ref (Ref_ext 0) 8 (?s 200) = ?s 200"
    by (simp add: ref_defs bvect_set_bw8 eval8)
  have c: "set_ref Ref_eval (Ref_ext 0) 1 (?s 8) =
             (val8 4 8 0 3 9, (\<lambda>n. bv8 200)(0 := bv8 8))"
    by (simp add: ref_defs eval8)
  have z: "set_bw_ref (Ref_ext 0) 0 (val8 4 8 0 3 9, (\<lambda>n. bv8 200)(0 := bv8 8)) =
             (val8 4 8 0 3 9, (\<lambda>n. bv8 200)(0 := bvect_set_bw 0 (bv8 8)))"
    by (simp add: ref_defs)
  show ?thesis
    unfolding s8 set_repair_def fst_conv val8_fields(6,7) i repair_sign_bits8
    by (simp add: b d u c z repair_sign_bits8 eval8 del: in_range8) (simp add: ref_defs eval8)
qed

text \<open>
  The samplers: with the range \<open>[3, 9)\<close>, \<open>set_random_at_most\<close> with \<open>src = 1\<close> and
  \<open>set_random_at_least\<close> with \<open>src = 200\<close> return false; the work vector of the caller has
  been written.  When the work vector names \<open>eval\<close>, it is \<open>eval\<close> that has been written.
\<close>

lemma get_at_most8_below_lo: "get_at_most (val8 4 4 0 3 9) (bv8 1) (bv8 0) = (False, bv8 1)"
  by (simp add: get_at_most8 round_down_def eval8)

lemma get_at_least8_above_hi: "get_at_least (val8 4 4 0 3 9) (bv8 200) (bv8 0) = (False, bv8 200)"
  by (simp add: get_at_least8 round_up_def eval8)

lemma set_random_at_most8_fails:
  "set_random_at_most (Ref_ext 0) (Ref_ext 1) r (val8 4 4 0 3 9, (\<lambda>n. bv8 0)(0 := bv8 1)) =
     Some (False, (val8 4 4 0 3 9, (\<lambda>n. bv8 0)(0 := bv8 1, 1 := bv8 1)), r)"
  by (simp add: set_random_at_most_def get_at_most_ref_ext get_at_most8_below_lo)

lemma set_random_at_least8_fails:
  "set_random_at_least (Ref_ext 0) (Ref_ext 1) r (val8 4 4 0 3 9, (\<lambda>n. bv8 0)(0 := bv8 200)) =
     Some (False, (val8 4 4 0 3 9, (\<lambda>n. bv8 0)(0 := bv8 200, 1 := bv8 200)), r)"
  by (simp add: set_random_at_least_def get_at_least_ref_ext get_at_least8_above_hi)

lemma get_at_most_ref8_alias:
  "get_at_most_ref (Ref_ext 0) Ref_eval (val8 4 4 0 3 9, \<lambda>n. bv8 1) =
     (False, (val8 4 1 0 3 9, \<lambda>n. bv8 1))"
proof -
  have i: "at_most_init_ref (Ref_ext 0) Ref_eval 1 (val8 4 4 0 3 9, \<lambda>n. bv8 1) =
             (val8 4 1 0 3 9, \<lambda>n. bv8 1)"
    by (simp add: ref_defs eval8)
  have s: "at_most_scan_ref (Ref_ext 0) Ref_eval 1 (val8 4 1 0 3 9, \<lambda>n. bv8 1) =
             (val8 4 1 0 3 9, \<lambda>n. bv8 1)"
    by (simp add: ref_defs eval8)
  show ?thesis
    unfolding get_at_most_ref_def fst_conv val8_fields(6) i s
    by (simp add: round_down_ref_def eval8)
qed

lemma set_random_at_most8_alias:
  "set_random_at_most (Ref_ext 0) Ref_eval r (val8 4 4 0 3 9, \<lambda>n. bv8 1) =
     Some (False, (val8 4 1 0 3 9, \<lambda>n. bv8 1), r)"
  by (simp add: set_random_at_most_def get_at_most_ref8_alias)

text \<open>
  The tightening of \<open>lo\<close> can also lower it.  With the committed value 33, bits 0 and 4
  fixed and the range \<open>[3, 50)\<close>, \<open>add_range(20, 60)\<close> takes \<open>l = 20\<close>, whose bit 4 differs
  from the fixed bit 4 of the committed value; \<open>tighten_range\<close> then stores \<open>lo = 1\<close>.
\<close>

lemma add_range8_lo_lowered: "add_range (val8 33 33 17 3 50) 20 60 = val8 33 33 17 1 50"
proof -
  have i: "add_range_intersect (val8 33 33 17 3 50) 20 60 = val8 33 33 17 20 50"
    by (simp add: add_range_intersect_def set_value_def lo_def hi_def eval8 unroll)
  have b: "tighten_bits (val8 33 33 17 20 50) = val8 33 33 17 20 50"
    by (simp add: tighten_bits_def eval8)
  have l: "tighten_lo (val8 33 33 17 20 50) 8 = val8 33 33 17 1 50"
    by (simp add: eval8 unroll)
  show ?thesis
    by (simp add: add_range_def tighten_range_def i b l eval8)
qed

text \<open>
  What the operations that can fail leave behind when they return false.  \<open>try_set\<close>,
  \<open>try_set_range\<close> and \<open>commit_eval\<close> have written nothing; \<open>try_set_bit\<close> has written
  nothing when the committed value is in range, as its opening assertion requires;
  \<open>set_repair\<close> and the samplers have written their work vector and nothing else, so that
  \<open>eval\<close> and \<open>bits\<close> are what they were whenever the work vector is not one of these two.
\<close>

lemma failure_writes_only_work_vector:
  "(in_range v (m_bits v) \<longrightarrow> \<not> fst (try_set_bit v i b) \<longrightarrow> snd (try_set_bit v i b) = v) \<and>
   (\<not> fst (try_set v x) \<longrightarrow> snd (try_set v x) = v) \<and>
   (\<not> fst (try_set_range v y lo_bit hi_bit b) \<longrightarrow>
      snd (try_set_range v y lo_bit hi_bit b) = y) \<and>
   (\<not> fst (commit_eval v) \<longrightarrow> snd (commit_eval v) = v) \<and>
   (set_repair try_down dst s = Some (False, s') \<longrightarrow> only_wrote dst s s') \<and>
   (set_random_at_most src tmp r s = Some (False, s', r') \<longrightarrow> only_wrote tmp s s') \<and>
   (set_random_at_least src tmp r s = Some (False, s', r') \<longrightarrow> only_wrote tmp s s') \<and>
   (set_random_in_range l h tmp r s = Some (False, s', r') \<longrightarrow> only_wrote tmp s s') \<and>
   (only_wrote dst s s' \<and> dst \<noteq> Ref_eval \<and> dst \<noteq> Ref_bits \<longrightarrow>
      eval (fst s') = eval (fst s) \<and> m_bits (fst s') = m_bits (fst s))"
  using try_set_bit_False [of v i b] try_set_False [of v x]
    try_set_range_False [of v y lo_bit hi_bit b] commit_eval_False [of v]
    only_wrote_set_repair [of try_down dst s s']
    only_wrote_set_random_at_most [of src tmp r s s' r']
    only_wrote_set_random_at_least [of src tmp r s s' r']
    only_wrote_set_random_in_range [of l h tmp r s s' r']
    only_wrote_eval_bits [of dst s s']
  by blast

lemma operations_return:
  "m_signed_prefix (fst s) \<noteq> bw (fst s) \<Longrightarrow>
   set_repair try_down dst s \<noteq> None \<and> set_random_at_most src tmp r s \<noteq> None \<and>
   set_random_at_least src tmp r s \<noteq> None \<and> set_random_in_range l h tmp r s \<noteq> None"
  by (simp only: set_repair_None set_random_at_most_None set_random_at_least_None
      set_random_in_range_None not_False_eq_True simp_thms)

section \<open>Claims about the predicates and the commit gate\<close>

text \<open>
  C1. \<open>commit_eval()\<close> returns true if and only if \<open>eval\<close> agrees with the committed value
  \<open>bits\<close> on every bit position set in \<open>fixed\<close> and \<open>in_range(eval)\<close> holds.  When it returns
  true, the first \<open>nw\<close> words of \<open>bits\<close> are those of \<open>eval\<close> afterwards (so both denote the
  same number) and \<open>eval\<close> is what it was; when it returns false, the whole valuation is
  unchanged.  The vector \<open>bits\<close> has room for its \<open>nw\<close> words.
\<close>

theorem commit_eval_gate:
  assumes "nw v \<le> length (b_data (m_bits v))"
  shows "(fst (commit_eval v) \<longleftrightarrow>
            (\<forall>j<nw v. \<forall>k. bit (at (fixed v) j) k \<longrightarrow>
                 bit (at (eval v) j) k = bit (at (m_bits v) j) k) \<and>
            in_range v (eval v)) \<and>
         (fst (commit_eval v) \<longrightarrow>
            (\<forall>j<nw v. at (m_bits (snd (commit_eval v))) j = at (eval v) j) \<and>
            get_value (m_bits (snd (commit_eval v))) (nw v) = get_value (eval v) (nw v) \<and>
            eval (snd (commit_eval v)) = eval v) \<and>
         (\<not> fst (commit_eval v) \<longrightarrow> snd (commit_eval v) = v)"
proof (intro conjI impI)
  show "fst (commit_eval v) \<longleftrightarrow>
          (\<forall>j<nw v. \<forall>k. bit (at (fixed v) j) k \<longrightarrow>
               bit (at (eval v) j) k = bit (at (m_bits v) j) k) \<and>
          in_range v (eval v)"
    unfolding commit_eval_True fixed_agree_bits by metis
next
  assume t: "fst (commit_eval v)"
  then have s: "snd (commit_eval v) = v\<lparr>m_bits := copy_words (nw v) (eval v) (m_bits v)\<rparr>"
    by (simp add: commit_eval_def split: if_splits)
  show w: "\<forall>j<nw v. at (m_bits (snd (commit_eval v))) j = at (eval v) j"
    using assms by (simp add: s at_copy_words)
  show "get_value (m_bits (snd (commit_eval v))) (nw v) = get_value (eval v) (nw v)"
    using w by (intro get_value_cong) simp
  show "eval (snd (commit_eval v)) = eval v"
    by (simp add: s)
next
  assume "\<not> fst (commit_eval v)"
  then show "snd (commit_eval v) = v"
    by (simp add: commit_eval_def split: if_splits)
qed

theorem commit_eval_gate_witness:
  "fst (commit_eval (val8 1 5 1 0 0)) \<and>
   at (m_bits (snd (commit_eval (val8 1 5 1 0 0)))) 0 = 5 \<and>
   \<not> fst (commit_eval (val8 1 4 1 0 0)) \<and>
   snd (commit_eval (val8 1 4 1 0 0)) = val8 1 4 1 0 0"
proof -
  have l: "nw (val8 1 e 1 0 0) \<le> length (b_data (m_bits (val8 1 e 1 0 0)))" for e
    by (simp add: val8_def bv8_def)
  have t: "fst (commit_eval (val8 1 5 1 0 0))"
    by (simp add: commit_eval_def val8_def bv8_def at_def in_range_def)
  have f: "\<not> fst (commit_eval (val8 1 4 1 0 0))"
    by (simp add: commit_eval_def val8_def bv8_def at_def in_range_def)
  have e: "at (eval (val8 1 5 1 0 0)) 0 = 5"
    by (simp add: val8_def bv8_def at_def)
  have n: "(0::nat) < nw (val8 1 5 1 0 0)"
    by (simp add: val8_def)
  from commit_eval_gate [OF l [of 5]] t n
  have "at (m_bits (snd (commit_eval (val8 1 5 1 0 0)))) 0 = at (eval (val8 1 5 1 0 0)) 0"
    by blast
  moreover from commit_eval_gate [OF l [of 4]] f
  have "snd (commit_eval (val8 1 4 1 0 0)) = val8 1 4 1 0 0"
    by blast
  ultimately show ?thesis
    using t f e by simp
qed

text \<open>
  C2. \<open>in_range(x)\<close> follows the three cases of the interval, read on the numbers that the
  first \<open>nw\<close> words denote: when \<open>lo = hi\<close> every \<open>x\<close> is in range; when \<open>lo < hi\<close>, \<open>x\<close> is in
  range iff \<open>lo \<le> x < hi\<close>; when \<open>lo > hi\<close>, \<open>x\<close> is in range iff \<open>x < hi\<close> or \<open>x \<ge> lo\<close>.
\<close>

theorem in_range_three_cases:
  "(get_value (m_lo v) (nw v) = get_value (m_hi v) (nw v) \<longrightarrow> in_range v x) \<and>
   (get_value (m_lo v) (nw v) < get_value (m_hi v) (nw v) \<longrightarrow>
      (in_range v x \<longleftrightarrow>
         get_value (m_lo v) (nw v) \<le> get_value x (nw v) \<and>
         get_value x (nw v) < get_value (m_hi v) (nw v))) \<and>
   (get_value (m_hi v) (nw v) < get_value (m_lo v) (nw v) \<longrightarrow>
      (in_range v x \<longleftrightarrow>
         get_value x (nw v) < get_value (m_hi v) (nw v) \<or>
         get_value (m_lo v) (nw v) \<le> get_value x (nw v)))"
  by (auto simp: in_range_def Let_def mpn_compare_less mpn_compare_le mpn_compare_eq)

theorem in_range_three_cases_witness:
  "in_range (val8 0 0 0 7 7) (bv8 200) \<and>
   in_range (val8 0 0 0 3 9) (bv8 3) \<and> \<not> in_range (val8 0 0 0 3 9) (bv8 9) \<and>
   in_range (val8 0 0 0 10 5) (bv8 4) \<and> in_range (val8 0 0 0 10 5) (bv8 10) \<and>
   \<not> in_range (val8 0 0 0 10 5) (bv8 5)"
proof -
  have v: "m_lo (val8 b e f l h) = bv8 l" "m_hi (val8 b e f l h) = bv8 h"
    "nw (val8 b e f l h) = 1" for b e f l h
    by (simp_all add: val8_def)
  show ?thesis
    using in_range_three_cases [of "val8 0 0 0 7 7" "bv8 200"]
      in_range_three_cases [of "val8 0 0 0 3 9" "bv8 3"]
      in_range_three_cases [of "val8 0 0 0 3 9" "bv8 9"]
      in_range_three_cases [of "val8 0 0 0 10 5" "bv8 4"]
      in_range_three_cases [of "val8 0 0 0 10 5" "bv8 10"]
      in_range_three_cases [of "val8 0 0 0 10 5" "bv8 5"]
    by (simp add: v bv8_def at_def)
qed

text \<open>
  C10. The constructor \<open>sls_valuation(b)\<close>, for \<open>b > 0\<close>, stores \<open>bw = b\<close>, the word count
  and the mask computed from \<open>b\<close>, and writes \<open>fixed[nw-1] = ~mask\<close>: among the \<open>32 nw\<close> bit
  positions of the vector exactly those at or above \<open>b\<close> are fixed, all of them in the most
  significant word, and the committed value is zero at every position.  So a vector that
  \<open>can_set\<close> accepts on a fresh valuation has no bit at or above \<open>b\<close>.  In every valuation
  in which the high bits are fixed and the committed value has no overflow bits, a vector
  that agrees with \<open>bits\<close> on all fixed bits has no overflow bits; so every value accepted
  by \<open>can_set\<close> and every value committed by \<open>commit_eval\<close> is free of overflow bits, and a
  commit keeps the valuation in that state.  \<open>has_overflow(x)\<close> says that \<open>x\<close> has a bit at a
  position from \<open>bw\<close> up to the end of the most significant word.
\<close>

theorem constructor_fixes_overflow_bits:
  "(0 < b \<longrightarrow>
      bw (new_valuation b) = b \<and> nw (new_valuation b) = bw_words b \<and>
      mask_v (new_valuation b) = bw_mask b \<and>
      at (fixed (new_valuation b)) (nw (new_valuation b) - 1) = NOT (mask_v (new_valuation b)) \<and>
      at (m_bits (new_valuation b)) (nw (new_valuation b) - 1) = 0 \<and>
      (\<forall>i<32 * bw_words b. get (fixed (new_valuation b)) i \<longleftrightarrow> b \<le> i) \<and>
      (\<forall>i<32 * bw_words b. \<not> get (m_bits (new_valuation b)) i) \<and>
      (\<forall>i. b \<le> i \<and> i < 32 * bw_words b \<longrightarrow> i div 32 = bw_words b - 1) \<and>
      overflow_fixed (new_valuation b) \<and>
      (can_set (new_valuation b) x \<longrightarrow> (\<forall>i. b \<le> i \<and> i < 32 * bw_words b \<longrightarrow> \<not> get x i))) \<and>
   (overflow_fixed v \<longrightarrow>
      ((\<forall>j<nw v. \<forall>k. bit (at (fixed v) j) k \<longrightarrow> bit (at x j) k = bit (at (m_bits v) j) k)
         \<longrightarrow> \<not> has_overflow v x) \<and>
      (can_set v x \<longrightarrow> \<not> has_overflow v x) \<and>
      (fst (commit_eval v) \<longrightarrow>
         \<not> has_overflow v (eval v) \<and>
         \<not> has_overflow (snd (commit_eval v)) (m_bits (snd (commit_eval v))) \<and>
         overflow_fixed (snd (commit_eval v)))) \<and>
   (dims v \<longrightarrow> (has_overflow v x \<longleftrightarrow> (\<exists>i. bw v \<le> i \<and> i < 32 * nw v \<and> get x i)))"
proof (intro conjI impI allI)
  assume p: "0 < b"
  then show "at (fixed (new_valuation b)) (nw (new_valuation b) - 1) = NOT (mask_v (new_valuation b))"
    and "at (m_bits (new_valuation b)) (nw (new_valuation b) - 1) = 0"
    and "overflow_fixed (new_valuation b)"
    by (simp_all only: new_valuation_fields new_valuation_fixed new_valuation_bits
        overflow_fixed_new)
  show "bw (new_valuation b) = b" "nw (new_valuation b) = bw_words b"
    "mask_v (new_valuation b) = bw_mask b"
    by (rule new_valuation_fields)+
  show "get (fixed (new_valuation b)) i \<longleftrightarrow> b \<le> i" if "i < 32 * bw_words b" for i
    using p that by (rule new_valuation_fixed_bits)
  show "\<not> get (m_bits (new_valuation b)) i" if "i < 32 * bw_words b" for i
    using new_valuation_zero [OF that] by blast
  show "i div 32 = bw_words b - 1" if "b \<le> i \<and> i < 32 * bw_words b" for i
    using that bw_words_bounds [OF p] by (intro div_nat_eqI) simp_all
  show "\<not> get x i" if "can_set (new_valuation b) x" "b \<le> i \<and> i < 32 * bw_words b" for i
    using p that by (blast intro: can_set_new_valuation [THEN notE])
next
  assume "overflow_fixed v"
    and "\<forall>j<nw v. \<forall>k. bit (at (fixed v) j) k \<longrightarrow> bit (at x j) k = bit (at (m_bits v) j) k"
  then show "\<not> has_overflow v x"
    by (intro fixed_agree_no_overflow) (simp_all only: fixed_agree_bits)
next
  assume "overflow_fixed v" and "can_set v x"
  then show "\<not> has_overflow v x" by (rule can_set_no_overflow)
next
  assume a: "overflow_fixed v" "fst (commit_eval v)"
  then show "\<not> has_overflow v (eval v)" and o: "overflow_fixed (snd (commit_eval v))"
    using commit_eval_overflow_fixed by blast+
  from o show "\<not> has_overflow (snd (commit_eval v)) (m_bits (snd (commit_eval v)))"
    by (simp add: overflow_fixed_def)
next
  assume "dims v"
  then show "has_overflow v x \<longleftrightarrow> (\<exists>i. bw v \<le> i \<and> i < 32 * nw v \<and> get x i)"
    by (rule has_overflow_iff)
qed

theorem constructor_fixes_overflow_bits_witness:
  "bw (new_valuation 8) = 8 \<and> nw (new_valuation 8) = 1 \<and> mask_v (new_valuation 8) = 255 \<and>
   at (fixed (new_valuation 8)) 0 = 0xFFFFFF00 \<and>
   get (fixed (new_valuation 8)) 8 \<and> get (fixed (new_valuation 8)) 31 \<and>
   \<not> get (fixed (new_valuation 8)) 7 \<and> \<not> get (m_bits (new_valuation 8)) 8 \<and>
   overflow_fixed (new_valuation 8) \<and>
   can_set (new_valuation 8) (bv8 5) \<and> \<not> has_overflow (new_valuation 8) (bv8 5) \<and>
   \<not> get (bv8 5) 8 \<and>
   fst (commit_eval (val8 0 5 0 0 0)) \<and>
   \<not> has_overflow (snd (commit_eval (val8 0 5 0 0 0))) (m_bits (snd (commit_eval (val8 0 5 0 0 0))))"
proof -
  have p: "(0::nat) < 8" by simp
  have w: "bw_words 8 = 1" "bw_mask 8 = 255"
    by (simp_all add: bw_words_def bw_mask_def)
  have c: "can_set (new_valuation 8) (bv8 5)"
    by (simp add: new_valuation_8 can_set_def val8_def bv8_def at_def in_range_def)
  have o: "overflow_fixed (val8 0 5 0 0 0)"
    by (simp add: overflow_fixed_def has_overflow_def val8_def bv8_def at_def)
  have t: "fst (commit_eval (val8 0 5 0 0 0))"
    by (simp add: commit_eval_def val8_def bv8_def at_def in_range_def)
  have f: "at (fixed (new_valuation 8)) (nw (new_valuation 8) - 1) = at (fixed (new_valuation 8)) 0"
    "NOT (mask_v (new_valuation 8)) = 0xFFFFFF00"
    by (simp_all add: new_valuation_8 val8_def)
  note n = constructor_fixes_overflow_bits [of 8 "bv8 5" "new_valuation 8"]
  from n p have d: "bw (new_valuation 8) = 8" "nw (new_valuation 8) = bw_words 8"
    "mask_v (new_valuation 8) = bw_mask 8"
    "at (fixed (new_valuation 8)) (nw (new_valuation 8) - 1) = NOT (mask_v (new_valuation 8))"
    "overflow_fixed (new_valuation 8)"
    by blast+
  from n d(5) c have h: "\<not> has_overflow (new_valuation 8) (bv8 5)"
    by blast
  from d(4) have e: "at (fixed (new_valuation 8)) 0 = 0xFFFFFF00"
    unfolding f .
  from d(1-3) d(5) e h
  have 1: "bw (new_valuation 8) = 8 \<and> nw (new_valuation 8) = 1 \<and> mask_v (new_valuation 8) = 255 \<and>
     at (fixed (new_valuation 8)) 0 = 0xFFFFFF00 \<and> overflow_fixed (new_valuation 8) \<and>
     \<not> has_overflow (new_valuation 8) (bv8 5)"
    by (simp add: w)
  from n p have a: "\<forall>i<32 * bw_words 8. get (fixed (new_valuation 8)) i \<longleftrightarrow> 8 \<le> i"
    and z: "\<forall>i<32 * bw_words 8. \<not> get (m_bits (new_valuation 8)) i"
    by blast+
  from n p c have g: "\<forall>i. 8 \<le> i \<and> i < 32 * bw_words 8 \<longrightarrow> \<not> get (bv8 5) i"
    by blast
  from a have 2: "get (fixed (new_valuation 8)) 8 \<and> get (fixed (new_valuation 8)) 31 \<and>
     \<not> get (fixed (new_valuation 8)) 7"
    by (simp add: w)
  from z have 3: "\<not> get (m_bits (new_valuation 8)) 8"
    by (simp add: w)
  from g have 4: "\<not> get (bv8 5) 8"
    by (simp add: w)
  from constructor_fixes_overflow_bits [of 8 "bv8 5" "val8 0 5 0 0 0"] o t
  have 5: "\<not> has_overflow (snd (commit_eval (val8 0 5 0 0 0))) (m_bits (snd (commit_eval (val8 0 5 0 0 0))))"
    by blast
  from 1 2 3 4 5 c t show ?thesis by simp
qed

section \<open>Claims about the bounded search\<close>

text \<open>
  C3 (evaluation at failing inputs).  In \<open>odd8\<close> bit 0 is fixed to 1 and there is no range.
  \<open>get_at_most\<close> with \<open>src = 6\<close> returns true with \<open>dst = 6\<close>, which \<open>can_set\<close> rejects,
  although 5 is feasible; with \<open>src = 0\<close> it returns true with \<open>dst = 0\<close> although no odd
  value is at most 0.  In \<open>even8\<close> bit 0 is fixed to 0, and \<open>get_at_least\<close> with \<open>src = 7\<close>
  returns true with \<open>dst = 6\<close>, which is below \<open>src\<close>, although 8 is feasible.
\<close>

theorem get_at_most_returns_infeasible:
  "get_at_most odd8 (bv8 6) (bv8 0) = (True, bv8 6) \<and>
   \<not> can_set odd8 (bv8 6) \<and> can_set odd8 (bv8 5) \<and>
   get_at_most odd8 (bv8 0) (bv8 0) = (True, bv8 0) \<and> \<not> can_set odd8 (bv8 0) \<and>
   get_at_least even8 (bv8 7) (bv8 0) = (True, bv8 6) \<and>
   get_value (bv8 6) 1 < get_value (bv8 7) 1 \<and> can_set even8 (bv8 8)"
  by (simp add: odd8_eq even8_eq get_at_most8 get_at_least8 round_down_def round_up_def
      can_set8 eval8)

text \<open>
  C4 (evaluation at the failing input).  \<open>wrap8\<close> is the state of the scenario: only bit 0
  is fixed, the committed value is 1 and the stored range is \<open>lo = 10\<close>, \<open>hi = 5\<close>; the
  committed value has no overflow bits and is in range.  \<open>get_at_least\<close> with \<open>src = 7\<close>
  returns true with \<open>dst = 10\<close>, the stored \<open>lo\<close>, and not 11.  The value 10 is even, so
  \<open>can_set\<close> rejects it, while it accepts 11.  The result is the same for the committed
  values 3, 13 and 255, which also have bit 0 set and lie in the range.
\<close>

theorem get_at_least_scenario_gives_lo:
  "wrap8 = val8 1 1 1 10 5 \<and>
   \<not> has_overflow wrap8 (m_bits wrap8) \<and> in_range wrap8 (m_bits wrap8) \<and>
   get_at_least wrap8 (bv8 7) (bv8 0) = (True, bv8 10) \<and>
   get_at_least wrap8 (bv8 7) (bv8 0) \<noteq> (True, bv8 11) \<and>
   \<not> can_set wrap8 (bv8 10) \<and> can_set wrap8 (bv8 11) \<and>
   get_at_least (val8 3 3 1 10 5) (bv8 7) (bv8 0) = (True, bv8 10) \<and>
   get_at_least (val8 13 13 1 10 5) (bv8 7) (bv8 0) = (True, bv8 10) \<and>
   get_at_least (val8 255 255 1 10 5) (bv8 7) (bv8 0) = (True, bv8 10)"
proof -
  have e: "get_at_least (val8 1 1 1 10 5) (bv8 7) (bv8 0) = (True, bv8 10)"
    "get_at_least (val8 3 3 1 10 5) (bv8 7) (bv8 0) = (True, bv8 10)"
    "get_at_least (val8 13 13 1 10 5) (bv8 7) (bv8 0) = (True, bv8 10)"
    "get_at_least (val8 255 255 1 10 5) (bv8 7) (bv8 0) = (True, bv8 10)"
    by (simp_all add: get_at_least8 round_up_def eval8)
  have n: "bv8 10 \<noteq> bv8 11"
    by (simp add: bv8_def)
  have c: "\<not> can_set (val8 1 1 1 10 5) (bv8 10)" "can_set (val8 1 1 1 10 5) (bv8 11)"
    "\<not> has_overflow (val8 1 1 1 10 5) (m_bits (val8 1 1 1 10 5))"
    "in_range (val8 1 1 1 10 5) (m_bits (val8 1 1 1 10 5))"
    by (simp_all add: can_set8 eval8)
  show ?thesis
    unfolding wrap8_eq using e n c by simp
qed

section \<open>Claims about range maintenance\<close>

text \<open>
  C6 (evaluation at a failing input).  \<open>odd8\<close> has no overflow bits and no range.  After
  \<open>add_range(4, 8)\<close> the committed value is 3 and the range is \<open>[5, 8)\<close>: the range is
  constrained and the committed value is outside it, although 5 is feasible.
\<close>

theorem add_range_leaves_bits_out_of_range:
  "\<not> has_overflow odd8 (m_bits odd8) \<and> \<not> has_range odd8 \<and>
   add_range odd8 4 8 = val8 3 1 1 5 8 \<and>
   \<not> has_overflow (add_range odd8 4 8) (m_bits (add_range odd8 4 8)) \<and>
   has_range (add_range odd8 4 8) \<and>
   \<not> in_range (add_range odd8 4 8) (m_bits (add_range odd8 4 8)) \<and>
   can_set (val8 1 1 1 5 8) (bv8 5)"
  by (simp add: add_range8_odd_4_8 has_range_def can_set8 eval8) (simp add: odd8_eq eval8)

text \<open>
  C5 as stated fails: in \<open>odd_range8\<close> bit 0 is fixed to 1, the committed value is 9 and
  the range is \<open>[3, 21)\<close>.  \<open>add_range(4, 30)\<close> has \<open>l = 4\<close> strictly inside the range, but
  the stored \<open>lo\<close> afterwards is 5, a value that agrees with the committed value on the
  fixed bit.
\<close>

theorem add_range_lo_counterexample:
  "odd_range8 = val8 9 9 1 3 21 \<and> lo odd_range8 < 4 \<and> 4 < hi odd_range8 \<and>
   lo (add_range odd_range8 4 30) = 5 \<and> lo (add_range odd_range8 4 30) \<noteq> 4"
  by (simp add: odd_range8_eq add_range8_narrow_odd lo_def hi_def eval8)

text \<open>
  C5, amended.  Take a valuation laid out as the constructor leaves it (size fields
  computed from \<open>bw > 0\<close>, vectors of at least \<open>nw\<close> words) and \<open>l \<noteq> h\<close>, both already reduced
  modulo \<open>2^bw\<close>.

  \<^item> If the range is not wrapped and \<open>lo < l < hi\<close>, or it is wrapped (\<open>lo > hi\<close>) and \<open>l > lo\<close>
    or \<open>l < hi\<close>, the intersection step of \<open>add_range\<close> stores \<open>l\<close> as \<open>lo\<close>.  After the whole
    call, \<open>tighten_range\<close> included, the stored \<open>lo\<close> is \<open>l\<close> exactly when \<open>l\<close> agrees with the
    committed value on every fixed bit below \<open>bw\<close>; in every case the stored \<open>lo\<close> agrees
    with the committed value on every fixed bit below \<open>bw\<close>, and the call does not change
    the committed value at these bits.
  \<^item> If the range is wrapped and \<open>l\<close> was not taken, the stored \<open>hi\<close> becomes \<open>h\<close> when \<open>h < hi\<close>
    or \<open>h > lo\<close>, and is kept otherwise.
  \<^item> If the range is wrapped and \<open>l\<close> was taken, the stored \<open>hi\<close> becomes \<open>h\<close> when
    \<open>l < h < hi\<close>, or when \<open>hi < l\<close> and (\<open>h < hi\<close> or \<open>h > l\<close>), and is kept otherwise.

  Nothing is stated about \<open>hi\<close> when the range is not wrapped.
\<close>

theorem add_range_narrows_lo:
  assumes d: "dims v" and nl: "b_nw (m_lo v) = nw v"
    and ll: "nw v \<le> length (b_data (m_lo v))" and lh: "nw v \<le> length (b_data (m_hi v))"
    and lb: "nw v \<le> length (b_data (m_bits v))"
    and l: "0 \<le> l" "l < 2 ^ bw v" and h: "0 \<le> h" "h < 2 ^ bw v" and ne: "l \<noteq> h"
  shows "((lo v < hi v \<and> lo v < l \<and> l < hi v) \<or> (hi v < lo v \<and> (lo v < l \<or> l < hi v)) \<longrightarrow>
            lo (add_range_intersect v l h) = l \<and>
            (lo (add_range v l h) = l \<longleftrightarrow>
               (\<forall>i<bw v. get (fixed v) i \<longrightarrow> get (m_bits v) i = bit l i)) \<and>
            (\<forall>i<bw v. get (fixed v) i \<longrightarrow>
               bit (lo (add_range v l h)) i = get (m_bits v) i \<and>
               get (m_bits (add_range v l h)) i = get (m_bits v) i)) \<and>
         (hi v < lo v \<and> \<not> (lo v < l \<or> l < hi v) \<longrightarrow>
            hi (add_range v l h) = (if h < hi v \<or> lo v < h then h else hi v)) \<and>
         (hi v < lo v \<and> (lo v < l \<or> l < hi v) \<longrightarrow>
            hi (add_range v l h) =
              (if (l < h \<and> h < hi v) \<or> (hi v < l \<and> (h < hi v \<or> l < h)) then h else hi v))"
proof -
  let ?w = "add_range_intersect v l h"
  let ?u = "tighten_bits ?w"
  from dims_nw [OF d] have n: "0 < nw v" "bw v \<le> 32 * nw v" by blast+
  have tl: "take_bit (bw v) l = l" and th: "take_bit (bw v) h = h"
    using l h by (simp_all add: take_bit_int_eq_self)
  have r: "add_range v l h = tighten_range ?w"
    using l h ne by (simp add: add_range_def Let_def)
  have wf: "m_bits ?w = m_bits v" "fixed ?w = fixed v" "nw ?w = nw v" "bw ?w = bw v"
    "mask_v ?w = mask_v v"
    using intersect_fields [of v l h] by blast+
  have dw: "dims ?w"
    using d dims_cong [OF wf(4,3,5)] by simp
  have hv: "get_value (set_value v (m_hi v) h) (nw v) = h"
    unfolding get_value_set_value [OF d lh] th ..
  have hi_r: "hi (add_range v l h) = hi ?w"
    unfolding r hi_def using tighten_range_hi [of ?w] by simp

  have wrapped: "hi (add_range v l h) =
      (if lo v < l \<or> l < hi v
       then (if (l < h \<and> h < hi v) \<or> (hi v < l \<and> (h < hi v \<or> l < h)) then h else hi v)
       else (if h < hi v \<or> lo v < h then h else hi v))" if a: "hi v < lo v"
  proof -
    from a have "lo v \<noteq> hi v" by simp
    then have e: "\<not> bv_eq (m_lo v) (m_hi v)"
      unfolding bv_eq_values nl lo_def hi_def .
    show ?thesis
      unfolding hi_r hi_def [of ?w] wf intersect_hi_wrapped [OF e a]
      using hv by (auto simp: hi_def)
  qed

  have inside: "lo ?w = l \<and>
      (lo (add_range v l h) = l \<longleftrightarrow>
         (\<forall>i<bw v. get (fixed v) i \<longrightarrow> get (m_bits v) i = bit l i)) \<and>
      (\<forall>i<bw v. get (fixed v) i \<longrightarrow>
         bit (lo (add_range v l h)) i = get (m_bits v) i \<and>
         get (m_bits (add_range v l h)) i = get (m_bits v) i)"
    if ins: "(lo v < hi v \<and> lo v < l \<and> l < hi v) \<or> (hi v < lo v \<and> (lo v < l \<or> l < hi v))"
  proof -
    from ins have nev: "lo v \<noteq> hi v" by auto
    then have e: "\<not> bv_eq (m_lo v) (m_hi v)"
      unfolding bv_eq_values nl lo_def hi_def .
    from intersect_lo [OF nev nl ins]
    have wl: "m_lo ?w = set_value v (m_lo v) l" by blast
    have lw: "lo ?w = l"
      unfolding lo_def wl wf get_value_set_value [OF d ll] tl ..
    have lenw: "length (b_data (m_lo ?w)) = length (b_data (m_lo v))"
      by (simp add: wl)
    have bl: "bw v \<le> 32 * length (b_data (m_lo ?w))"
      using n(2) ll unfolding lenw by simp
    have gl: "get (m_lo ?w) i = bit l i" if "i < bw v" for i
    proof -
      from that n(2) have "i < 32 * nw v" by simp
      from get_value_bits [OF _ this, of "m_lo ?w" l] lw show ?thesis
        by (simp add: lo_def wf)
    qed
    have hw: "hi ?w = hi v \<or> hi ?w = h"
    proof (cases "lo v < hi v")
      case True
      from intersect_hi_plain [OF e True] show ?thesis
        by (simp add: hi_def wf)
    next
      case False
      with nev have a: "hi v < lo v" by simp
      show ?thesis
        unfolding hi_def [of ?w] wf intersect_hi_wrapped [OF e a]
        using hv by (auto simp: hi_def)
    qed
    have lne: "l \<noteq> hi v" using ins by auto
    have "lo ?w \<noteq> hi ?w"
      using hw lw lne ne by auto
    moreover have "b_nw (m_lo ?w) = nw ?w"
      by (simp add: wl wf nl)
    ultimately have ew: "\<not> bv_eq (m_lo ?w) (m_hi ?w)"
      unfolding bv_eq_values lo_def hi_def by simp
    then have t: "tighten_range ?w = tighten_lo ?u (bw ?w)"
      by (simp add: tighten_range_def)
    have uf: "m_lo ?u = m_lo ?w" "nw ?u = nw v" "bw ?u = bw v" "fixed ?u = fixed v"
      using tighten_bits_fields [of ?w] by (simp_all add: wf)
    have lbw: "nw ?w \<le> length (b_data (m_bits ?w))"
      using lb by (simp add: wf)
    have ub: "get (m_bits ?u) i = get (m_bits v) i" if "i < bw v" "get (fixed v) i" for i
      using tighten_bits_keeps_fixed_bits [OF dw lbw, of i] that by (simp add: wf)
    have blu: "bw ?u \<le> 32 * length (b_data (m_lo ?u))"
      using bl by (simp add: uf)
    let ?f = "tighten_lo ?u (bw ?u)"
    have fin: "add_range v l h = ?f"
      unfolding r t by (simp add: uf wf)
    have ff: "m_bits ?f = m_bits ?u" "nw ?f = nw v"
      using tighten_lo_fields [of ?u "bw ?u"] by (simp_all add: uf)
    have agree_iff: "(\<forall>i<bw ?u. get (fixed ?u) i \<longrightarrow> get (m_bits ?u) i = get (m_lo ?u) i) \<longleftrightarrow>
        (\<forall>i<bw v. get (fixed v) i \<longrightarrow> get (m_bits v) i = bit l i)"
      using ub gl by (auto simp: uf)
    have 2: "lo (add_range v l h) = l \<longleftrightarrow>
        (\<forall>i<bw v. get (fixed v) i \<longrightarrow> get (m_bits v) i = bit l i)"
    proof
      assume "\<forall>i<bw v. get (fixed v) i \<longrightarrow> get (m_bits v) i = bit l i"
      then have "\<forall>i<bw ?u. get (fixed ?u) i \<longrightarrow> get (m_bits ?u) i = get (m_lo ?u) i"
        unfolding agree_iff .
      then have "?f = ?u" by (rule tighten_lo_agree)
      then show "lo (add_range v l h) = l"
        unfolding fin using lw by (simp add: lo_def uf wf)
    next
      assume eq: "lo (add_range v l h) = l"
      show "\<forall>i<bw v. get (fixed v) i \<longrightarrow> get (m_bits v) i = bit l i"
      proof (rule ccontr)
        assume "\<not> (\<forall>i<bw v. get (fixed v) i \<longrightarrow> get (m_bits v) i = bit l i)"
        then have "\<exists>i<bw ?u. get (fixed ?u) i \<and> get (m_bits ?u) i \<noteq> get (m_lo ?u) i"
          unfolding agree_iff [symmetric] by blast
        from tighten_lo_differs [OF order_refl blu this]
        obtain i where i: "i < bw v" "get (m_lo ?f) i \<noteq> get (m_lo ?u) i"
          by (auto simp: uf)
        from i(1) n(2) have i32: "i < 32 * nw v" by simp
        have "get (m_lo ?f) i = bit l i"
          using get_value_bits [OF _ i32, of "m_lo ?f" l] eq
          unfolding fin lo_def ff by simp
        with i gl [OF i(1)] show False by (simp add: uf)
      qed
    qed
    have 3: "bit (lo (add_range v l h)) i = get (m_bits v) i \<and>
             get (m_bits (add_range v l h)) i = get (m_bits v) i"
      if i: "i < bw v" and f: "get (fixed v) i" for i
    proof -
      from i n(2) have i32: "i < 32 * nw v" by simp
      have "get (m_lo ?f) i = get (m_bits ?u) i"
        by (rule tighten_lo_result_agrees [OF order_refl blu]) (use i f in \<open>auto simp: uf\<close>)
      then have "get (m_lo ?f) i = get (m_bits v) i"
        using ub [OF i f] by simp
      moreover have "bit (lo ?f) i = get (m_lo ?f) i"
        unfolding lo_def ff bit_get_value using i32 by simp
      moreover have "get (m_bits ?f) i = get (m_bits v) i"
        unfolding ff using ub [OF i f] .
      ultimately show ?thesis
        unfolding fin by simp
    qed
    from lw 2 3 show ?thesis by blast
  qed
  from inside wrapped show ?thesis by auto
qed

theorem add_range_narrows_lo_witness:
  "lo (add_range_intersect (val8 9 9 1 3 21) 4 30) = 4 \<and>
   lo (add_range (val8 9 9 1 3 21) 4 30) \<noteq> 4 \<and>
   bit (lo (add_range (val8 9 9 1 3 21) 4 30)) 0 \<and>
   get (m_bits (add_range (val8 9 9 1 3 21) 4 30)) 0 \<and>
   lo (add_range (val8 9 9 1 3 21) 5 30) = 5 \<and>
   hi (add_range (val8 1 1 0 10 5) 12 3) = 3 \<and>
   hi (add_range (val8 1 1 0 10 5) 2 7) = 5"
proof -
  have s: "b_nw (m_lo (val8 b e f x y)) = nw (val8 b e f x y)"
    "nw (val8 b e f x y) \<le> length (b_data (m_lo (val8 b e f x y)))"
    "nw (val8 b e f x y) \<le> length (b_data (m_hi (val8 b e f x y)))"
    "nw (val8 b e f x y) \<le> length (b_data (m_bits (val8 b e f x y)))" for b e f x y
    by (simp_all add: eval8)
  have p: "(4::int) < 2 ^ bw (val8 b e f x y)" "(30::int) < 2 ^ bw (val8 b e f x y)"
    "(5::int) < 2 ^ bw (val8 b e f x y)" "(12::int) < 2 ^ bw (val8 b e f x y)"
    "(3::int) < 2 ^ bw (val8 b e f x y)" "(2::int) < 2 ^ bw (val8 b e f x y)"
    "(7::int) < 2 ^ bw (val8 b e f x y)" for b e f x y
    by (simp_all add: eval8)
  have r: "lo (val8 b e f x y) = uint x" "hi (val8 b e f x y) = uint y" for b e f x y
    by (simp_all add: lo_def hi_def eval8)
  have c: "i < 8 \<Longrightarrow> i = 0 \<or> i = 1 \<or> i = 2 \<or> i = 3 \<or> i = 4 \<or> i = 5 \<or> i = 6 \<or> i = 7" for i :: nat
    by arith
  have f0: "get (fixed (val8 9 9 1 3 21)) 0" "get (m_bits (val8 9 9 1 3 21)) 0"
    "(0::nat) < bw (val8 9 9 1 3 21)"
    by (simp_all add: eval8)
  have a4: "\<not> (\<forall>i<bw (val8 9 9 1 3 21). get (fixed (val8 9 9 1 3 21)) i \<longrightarrow>
              get (m_bits (val8 9 9 1 3 21)) i = bit (4::int) i)"
    using f0 by (auto intro!: exI [of _ 0])
  have a5: "\<forall>i<bw (val8 9 9 1 3 21). get (fixed (val8 9 9 1 3 21)) i \<longrightarrow>
              get (m_bits (val8 9 9 1 3 21)) i = bit (5::int) i"
  proof (intro allI impI)
    fix i assume "i < bw (val8 9 9 1 3 21)" and g: "get (fixed (val8 9 9 1 3 21)) i"
    then have "i < 8" by (simp add: eval8)
    from c [OF this] g show "get (m_bits (val8 9 9 1 3 21)) i = bit (5::int) i"
      by (auto simp: eval8 bit_numeral_simps)
  qed
  note t1 = add_range_narrows_lo [OF dims_val8 s _ p(1) _ p(2), of 9 9 1 3 21]
  from t1 a4 f0
  have 1: "lo (add_range_intersect (val8 9 9 1 3 21) 4 30) = 4 \<and>
     lo (add_range (val8 9 9 1 3 21) 4 30) \<noteq> 4 \<and>
     bit (lo (add_range (val8 9 9 1 3 21) 4 30)) 0 \<and>
     get (m_bits (add_range (val8 9 9 1 3 21) 4 30)) 0"
    by (simp add: r)
  note t2 = add_range_narrows_lo [OF dims_val8 s _ p(3) _ p(2), of 9 9 1 3 21]
  from t2 a5 have 2: "lo (add_range (val8 9 9 1 3 21) 5 30) = 5"
    by (simp add: r)
  note t3 = add_range_narrows_lo [OF dims_val8 s _ p(4) _ p(5), of 1 1 0 10 5]
  from t3 have 3: "hi (add_range (val8 1 1 0 10 5) 12 3) = 3"
    by (simp add: r)
  note t4 = add_range_narrows_lo [OF dims_val8 s _ p(6) _ p(7), of 1 1 0 10 5]
  from t4 have 4: "hi (add_range (val8 1 1 0 10 5) 2 7) = 5"
    by (simp add: r)
  from 1 2 3 4 show ?thesis by simp
qed

section \<open>Claims about the conversion to a bounded number\<close>

text \<open>
  C9 as stated fails: with the committed value 7 and \<open>max_n = 5\<close> (below \<open>UINT_MAX / 2\<close>),
  \<open>to_nat\<close> returns 7, which exceeds \<open>max_n\<close>.
\<close>

theorem to_nat_exceeds_bound:
  "uint (5 :: unsigned) < (2 ^ 32 - 1) div 2 \<and>
   get_value (m_bits (val8 7 7 0 0 0)) (nw (val8 7 7 0 0 0)) = 7 \<and>
   uint (to_nat (val8 7 7 0 0 0) 5) = 7 \<and>
   uint (5 :: unsigned) < uint (to_nat (val8 7 7 0 0 0) 5)"
  by (simp add: to_nat8_7_5 eval8)

text \<open>
  C9, amended.  Let \<open>max_n < UINT_MAX / 2\<close> and let \<open>2^K\<close> be the least power of two that
  is at least \<open>max_n\<close>.  For a committed value without overflow bits, \<open>to_nat(max_n)\<close>
  returns the committed value when it is below \<open>2^K\<close> (in particular whenever it is below
  \<open>max_n\<close>), and returns \<open>max_n\<close> otherwise.
\<close>

theorem to_nat_saturates_at_power_of_two:
  assumes "dims v" and "\<not> has_overflow v (m_bits v)"
    and "uint max_n < (2 ^ 32 - 1) div 2"
    and "uint max_n \<le> 2 ^ K" and "\<forall>j<K. 2 ^ j < uint max_n"
  shows "uint (to_nat v max_n) =
           (if get_value (m_bits v) (nw v) < 2 ^ K then get_value (m_bits v) (nw v)
            else uint max_n) \<and>
         (get_value (m_bits v) (nw v) < uint max_n \<longrightarrow>
            uint (to_nat v max_n) = get_value (m_bits v) (nw v))"
proof -
  let ?V = "get_value (m_bits v) (nw v)"
  from dims_nw [OF assms(1)] have n: "bw v \<le> 32 * nw v" by blast
  have 1: "\<forall>j<0 + bw v. get (m_bits v) j = bit ?V j"
    using n by (simp add: bit_get_value)
  have 2: "?V < 2 ^ (0 + bw v)"
    using assms(2) no_overflow_value [OF assms(1)] by simp
  have 3: "uint (1 :: unsigned) = 2 ^ 0" "uint (0 :: unsigned) = take_bit 0 ?V"
    "\<forall>j<0::nat. (2::int) ^ j < uint max_n"
    by simp_all
  have 4: "uint max_n < 2 ^ 31"
    using assms(3) by simp
  have r: "uint (to_nat v max_n) = (if ?V < 2 ^ K then ?V else uint max_n)"
    unfolding to_nat_def
    by (rule to_nat_loop_value [OF 1 get_value_nonneg 2 3 4 assms(4,5)])
  moreover have "uint (to_nat v max_n) = ?V" if "?V < uint max_n"
  proof -
    from that assms(4) have "?V < 2 ^ K" by linarith
    with r show ?thesis by simp
  qed
  ultimately show ?thesis by blast
qed

theorem to_nat_saturates_at_power_of_two_witness:
  "uint (to_nat (val8 7 7 0 0 0) 5) = 7 \<and> uint (to_nat (val8 9 9 0 0 0) 5) = 5 \<and>
   uint (to_nat (val8 3 3 0 0 0) 5) = 3"
proof -
  have o: "\<not> has_overflow (val8 b e 0 0 0) (m_bits (val8 b e 0 0 0))" if "b AND NOT 255 = 0" for b e
    using that by (simp add: eval8)
  have m: "uint (5 :: unsigned) < (2 ^ 32 - 1) div 2" "uint (5 :: unsigned) \<le> 2 ^ 3"
    by simp_all
  have k: "\<forall>j<3::nat. (2::int) ^ j < uint (5 :: unsigned)"
  proof (intro allI impI)
    fix j :: nat assume "j < 3"
    then have "j = 0 \<or> j = 1 \<or> j = 2" by arith
    then show "(2::int) ^ j < uint (5 :: unsigned)" by auto
  qed
  have g: "get_value (m_bits (val8 b e 0 0 0)) (nw (val8 b e 0 0 0)) = uint b" for b e
    by (simp add: eval8)
  from to_nat_saturates_at_power_of_two [OF dims_val8 o m k, of 7 7]
  have "uint (to_nat (val8 7 7 0 0 0) 5) = 7"
    unfolding g by simp
  moreover from to_nat_saturates_at_power_of_two [OF dims_val8 o m k, of 9 9]
  have "uint (to_nat (val8 9 9 0 0 0) 5) = 5"
    unfolding g by simp
  moreover from to_nat_saturates_at_power_of_two [OF dims_val8 o m k, of 3 3]
  have "uint (to_nat (val8 3 3 0 0 0) 5) = 3"
    unfolding g by simp
  ultimately show ?thesis by simp
qed

section \<open>Claims about the delegated arithmetic\<close>

text \<open>
  C8. For operands \<open>a\<close>, \<open>b\<close> without overflow bits, read as the numbers their \<open>nw\<close> words
  denote: \<open>set_add\<close> returns true iff the exact sum exceeds \<open>2^bw - 1\<close>, and stores the sum
  modulo \<open>2^bw\<close>; \<open>set_mul\<close> with \<open>check_overflow = true\<close> returns true iff the exact product
  exceeds \<open>2^bw - 1\<close>, and stores the product modulo \<open>2^bw\<close>.  The output vector has room
  for the \<open>nw + 1\<close> words of a sum, respectively the \<open>2 nw\<close> words of a product.
\<close>

theorem set_add_set_mul_overflow:
  assumes "dims v" and "\<not> has_overflow v a" and "\<not> has_overflow v b"
    and "nw v + 1 \<le> length (b_data out)" and "2 * nw v \<le> length (b_data out2)"
  shows "(fst (set_add v out a b) \<longleftrightarrow>
            2 ^ bw v - 1 < get_value a (nw v) + get_value b (nw v)) \<and>
         get_value (snd (set_add v out a b)) (nw v) =
            (get_value a (nw v) + get_value b (nw v)) mod 2 ^ bw v \<and>
         (fst (set_mul v out2 a b True) \<longleftrightarrow>
            2 ^ bw v - 1 < get_value a (nw v) * get_value b (nw v)) \<and>
         get_value (snd (set_mul v out2 a b True)) (nw v) =
            (get_value a (nw v) * get_value b (nw v)) mod 2 ^ bw v"
  using set_add_flag_value [OF assms(1-4)] set_mul_flag_value [OF assms(1-3,5)]
  by (simp add: zle_diff1_eq [symmetric] del: zle_diff1_eq) 


theorem set_add_set_mul_overflow_witness:
  "fst (set_add (val8 0 0 0 0 0) (bv8 0) (bv8 200) (bv8 100)) \<and>
   get_value (snd (set_add (val8 0 0 0 0 0) (bv8 0) (bv8 200) (bv8 100))) 1 = 44 \<and>
   fst (set_mul (val8 0 0 0 0 0) (bv8 0) (bv8 200) (bv8 100) True) \<and>
   get_value (snd (set_mul (val8 0 0 0 0 0) (bv8 0) (bv8 200) (bv8 100) True)) 1 = 32 \<and>
   \<not> fst (set_add (val8 0 0 0 0 0) (bv8 0) (bv8 20) (bv8 10)) \<and>
   get_value (snd (set_add (val8 0 0 0 0 0) (bv8 0) (bv8 20) (bv8 10))) 1 = 30"
proof -
  have o: "\<not> has_overflow (val8 0 0 0 0 0) (bv8 200)" "\<not> has_overflow (val8 0 0 0 0 0) (bv8 100)"
    "\<not> has_overflow (val8 0 0 0 0 0) (bv8 20)" "\<not> has_overflow (val8 0 0 0 0 0) (bv8 10)"
    by (simp_all add: eval8)
  have l: "nw (val8 0 0 0 0 0) + 1 \<le> length (b_data (bv8 0))"
    "2 * nw (val8 0 0 0 0 0) \<le> length (b_data (bv8 0))"
    by (simp_all add: eval8)
  have n: "nw (val8 0 0 0 0 0) = 1" "bw (val8 0 0 0 0 0) = 8"
    by (simp_all add: eval8)
  from set_add_set_mul_overflow [OF dims_val8 o(1,2) l]
  have "fst (set_add (val8 0 0 0 0 0) (bv8 0) (bv8 200) (bv8 100)) \<and>
   get_value (snd (set_add (val8 0 0 0 0 0) (bv8 0) (bv8 200) (bv8 100))) 1 = 44 \<and>
   fst (set_mul (val8 0 0 0 0 0) (bv8 0) (bv8 200) (bv8 100) True) \<and>
   get_value (snd (set_mul (val8 0 0 0 0 0) (bv8 0) (bv8 200) (bv8 100) True)) 1 = 32"
    unfolding n get_value_bv8 by simp
  moreover from set_add_set_mul_overflow [OF dims_val8 o(3,4) l]
  have "\<not> fst (set_add (val8 0 0 0 0 0) (bv8 0) (bv8 20) (bv8 10)) \<and>
   get_value (snd (set_add (val8 0 0 0 0 0) (bv8 0) (bv8 20) (bv8 10))) 1 = 30"
    unfolding n get_value_bv8 by simp
  ultimately show ?thesis by simp
qed

section \<open>Claims about failing operations\<close>

text \<open>
  C7 (evaluation at a failing input).  \<open>add_range(4, 8)\<close> on \<open>odd8\<close> leaves the committed
  value 3, the range \<open>[5, 8)\<close> and \<open>eval = 1\<close>, in which bit 1 is clear; bit 1 is not fixed.
  In this state \<open>try_set_bit(1, false)\<close> returns false and leaves \<open>eval = 3\<close>: bit 1 of
  \<open>eval\<close> is set after the call, so the previous bit value is not restored.
\<close>

theorem try_set_bit_failure_changes_eval:
  "add_range odd8 4 8 = val8 3 1 1 5 8 \<and>
   1 < bw (add_range odd8 4 8) \<and> \<not> get (fixed (add_range odd8 4 8)) 1 \<and>
   eval (add_range odd8 4 8) = bv8 1 \<and> \<not> get (eval (add_range odd8 4 8)) 1 \<and>
   try_set_bit (add_range odd8 4 8) 1 False = (False, val8 3 3 1 5 8) \<and>
   eval (snd (try_set_bit (add_range odd8 4 8) 1 False)) = bv8 3 \<and>
   get (eval (snd (try_set_bit (add_range odd8 4 8) 1 False))) 1 \<and>
   eval (snd (try_set_bit (add_range odd8 4 8) 1 False)) \<noteq> eval (add_range odd8 4 8)"
proof -
  have t: "try_set_bit (val8 3 1 1 5 8) 1 False = (False, val8 3 3 1 5 8)"
    by (simp add: try_set_bit_def get_bit_def eval8)
  have n: "bv8 3 \<noteq> bv8 1"
    by (simp add: bv8_def)
  have g: "\<not> get (bv8 (1 OR 0xFFFFFF00)) 1" "\<not> get (bv8 1) 1" "get (bv8 3) 1"
    by (simp_all add: eval8)
  show ?thesis
    unfolding add_range8_odd_4_8 t using n g by (simp add: eval8)
qed

end
